theory Spec2Isabelle
  imports Main "HOL-Library.Word"
begin

section \<open>Descriptors: element types, operators, monoids, semirings\<close>

text \<open>
  The enumerations \<open>GB_Type_code\<close> and \<open>GB_Opcode\<close> are declared in the header
  \<open>GB.h\<close>, which is not among the sources. The sources only compare codes for equality
  and test them against the first user-defined code (\<open>code >= GB_UCT_code\<close>,
  \<open>opcode >= GB_USER_C_opcode\<close>); the user-defined codes come last in both enumerations.
\<close>

datatype GB_Type_code =
    GB_BOOL_code | GB_INT8_code | GB_UINT8_code | GB_INT16_code | GB_UINT16_code
  | GB_INT32_code | GB_UINT32_code | GB_INT64_code | GB_UINT64_code
  | GB_FP32_code | GB_FP64_code | GB_UCT_code | GB_UDT_code

fun type_code_rank :: "GB_Type_code \<Rightarrow> nat" where
  "type_code_rank GB_BOOL_code = 0"
| "type_code_rank GB_INT8_code = 1"
| "type_code_rank GB_UINT8_code = 2"
| "type_code_rank GB_INT16_code = 3"
| "type_code_rank GB_UINT16_code = 4"
| "type_code_rank GB_INT32_code = 5"
| "type_code_rank GB_UINT32_code = 6"
| "type_code_rank GB_INT64_code = 7"
| "type_code_rank GB_UINT64_code = 8"
| "type_code_rank GB_FP32_code = 9"
| "type_code_rank GB_FP64_code = 10"
| "type_code_rank GB_UCT_code = 11"
| "type_code_rank GB_UDT_code = 12"

datatype GB_Opcode =
    GB_FIRST_opcode | GB_SECOND_opcode | GB_PAIR_opcode | GB_ANY_opcode
  | GB_MIN_opcode | GB_MAX_opcode | GB_PLUS_opcode | GB_MINUS_opcode | GB_RMINUS_opcode
  | GB_TIMES_opcode | GB_DIV_opcode | GB_RDIV_opcode
  | GB_ISEQ_opcode | GB_ISNE_opcode | GB_ISGT_opcode | GB_ISLT_opcode
  | GB_ISGE_opcode | GB_ISLE_opcode
  | GB_LOR_opcode | GB_LAND_opcode | GB_LXOR_opcode
  | GB_EQ_opcode | GB_NE_opcode | GB_GT_opcode | GB_LT_opcode | GB_GE_opcode | GB_LE_opcode
  | GB_USER_C_opcode | GB_USER_R_opcode

text \<open>The test \<open>opcode >= GB_USER_C_opcode\<close>: the two user-defined codes end the enumeration.\<close>

fun opcode_is_user :: "GB_Opcode \<Rightarrow> bool" where
  "opcode_is_user GB_USER_C_opcode = True"
| "opcode_is_user GB_USER_R_opcode = True"
| "opcode_is_user _ = False"

record GrB_Type =
  code :: GB_Type_code
  size :: nat
  name :: string

record GrB_BinaryOp =
  xtype :: GrB_Type
  ytype :: GrB_Type
  ztype :: GrB_Type
  opcode :: GB_Opcode

record 'v GrB_Monoid =
  op :: GrB_BinaryOp
  identity :: 'v
  terminal :: "'v option"

text \<open>The built-in boolean type \<open>GrB_BOOL\<close> and a built-in integer type.\<close>

definition GrB_BOOL :: GrB_Type where
  "GrB_BOOL = \<lparr> code = GB_BOOL_code, size = 1, name = ''bool'' \<rparr>"

definition GrB_INT8 :: GrB_Type where
  "GrB_INT8 = \<lparr> code = GB_INT8_code, size = 1, name = ''int8_t'' \<rparr>"

record 'v GrB_Semiring =
  add :: "'v GrB_Monoid"
  multiply :: GrB_BinaryOp

section \<open>GB_AxB_semiring_builtin\<close>

text \<open>
  Modelled from the spec: \<open>GB_boolean_rename\<close> is called by \<open>GB_AxB_semiring_builtin\<close> but
  defined in a file that is not among the sources. The table is the one of the spec
  (section 4.4.3), which is also the comment at the call site; every other opcode is
  returned as it is.
\<close>

fun GB_boolean_rename :: "GB_Opcode \<Rightarrow> GB_Opcode" where
  "GB_boolean_rename GB_DIV_opcode = GB_FIRST_opcode"
| "GB_boolean_rename GB_RDIV_opcode = GB_SECOND_opcode"
| "GB_boolean_rename GB_MIN_opcode = GB_LAND_opcode"
| "GB_boolean_rename GB_TIMES_opcode = GB_LAND_opcode"
| "GB_boolean_rename GB_MAX_opcode = GB_LOR_opcode"
| "GB_boolean_rename GB_PLUS_opcode = GB_LOR_opcode"
| "GB_boolean_rename GB_NE_opcode = GB_LXOR_opcode"
| "GB_boolean_rename GB_ISNE_opcode = GB_LXOR_opcode"
| "GB_boolean_rename GB_RMINUS_opcode = GB_LXOR_opcode"
| "GB_boolean_rename GB_MINUS_opcode = GB_LXOR_opcode"
| "GB_boolean_rename GB_ISEQ_opcode = GB_EQ_opcode"
| "GB_boolean_rename GB_ISGT_opcode = GB_GT_opcode"
| "GB_boolean_rename GB_ISLT_opcode = GB_LT_opcode"
| "GB_boolean_rename GB_ISGE_opcode = GB_GE_opcode"
| "GB_boolean_rename GB_ISLE_opcode = GB_LE_opcode"
| "GB_boolean_rename opc = opc"

text \<open>The \<open>switch (*mult_opcode)\<close> of the \<open>flipxy\<close> branch, with its empty \<open>default\<close>.\<close>

fun flipxy_switch :: "GB_Opcode \<Rightarrow> GB_Opcode" where
  "flipxy_switch GB_FIRST_opcode = GB_SECOND_opcode"
| "flipxy_switch GB_SECOND_opcode = GB_FIRST_opcode"
| "flipxy_switch GB_GT_opcode = GB_LT_opcode"
| "flipxy_switch GB_LT_opcode = GB_GT_opcode"
| "flipxy_switch GB_GE_opcode = GB_LE_opcode"
| "flipxy_switch GB_LE_opcode = GB_GE_opcode"
| "flipxy_switch GB_ISGT_opcode = GB_ISLT_opcode"
| "flipxy_switch GB_ISLT_opcode = GB_ISGT_opcode"
| "flipxy_switch GB_ISGE_opcode = GB_ISLE_opcode"
| "flipxy_switch GB_ISLE_opcode = GB_ISGE_opcode"
| "flipxy_switch GB_DIV_opcode = GB_RDIV_opcode"
| "flipxy_switch GB_RDIV_opcode = GB_DIV_opcode"
| "flipxy_switch GB_MINUS_opcode = GB_RMINUS_opcode"
| "flipxy_switch GB_RMINUS_opcode = GB_MINUS_opcode"
| "flipxy_switch opc = opc"

text \<open>
  The outputs \<open>mult_opcode\<close>, \<open>add_opcode\<close>, \<open>xycode\<close>, \<open>zcode\<close> of a semiring the function
  accepts. The function returns \<open>false\<close> (here \<open>None\<close>) for a semiring it does not handle,
  and the caller then ignores the outputs. Only the type of a matrix is read.
\<close>

record semiring_codes =
  mult_opcode :: GB_Opcode
  add_opcode :: GB_Opcode
  xycode :: GB_Type_code
  zcode :: GB_Type_code

definition GB_AxB_semiring_builtin ::
  "GrB_Type \<Rightarrow> bool \<Rightarrow> GrB_Type \<Rightarrow> bool \<Rightarrow> 'v GrB_Semiring \<Rightarrow> bool \<Rightarrow> semiring_codes option"
where
  "GB_AxB_semiring_builtin A_type A_is_pattern B_type B_is_pattern semiring flipxy =
    (let addop = op (add semiring);
         mult = multiply semiring;
         add_opcode0 = opcode addop;
         mult_opcode0 = opcode mult
     in
     if \<not> A_is_pattern \<and>
        (A_type \<noteq> (if flipxy then ytype mult else xtype mult) \<or>
         type_code_rank (code A_type) \<ge> type_code_rank GB_UCT_code)
     then None
     else if \<not> B_is_pattern \<and>
        (B_type \<noteq> (if flipxy then xtype mult else ytype mult) \<or>
         type_code_rank (code B_type) \<ge> type_code_rank GB_UCT_code)
     then None
     else if \<not> A_is_pattern \<and> \<not> B_is_pattern \<and> A_type \<noteq> B_type
     then None
     else if opcode_is_user add_opcode0 \<or> opcode_is_user mult_opcode0
     then None
     else
       let xycode0 = code (xtype mult);
           zcode0 = code (ztype mult);
           mult_opcode1 =
             (if xycode0 = GB_BOOL_code then GB_boolean_rename mult_opcode0 else mult_opcode0);
           add_opcode1 =
             (if zcode0 = GB_BOOL_code then GB_boolean_rename add_opcode0 else add_opcode0);
           mult_opcode2 = (if flipxy then flipxy_switch mult_opcode1 else mult_opcode1)
       in Some \<lparr> mult_opcode = mult_opcode2, add_opcode = add_opcode1,
                  xycode = xycode0, zcode = zcode0 \<rparr>)"

text \<open>Built-in semirings over booleans and over 8-bit integers, named by their opcodes.\<close>

definition bool_binop :: "GB_Opcode \<Rightarrow> GrB_BinaryOp" where
  "bool_binop opc = \<lparr> xtype = GrB_BOOL, ytype = GrB_BOOL, ztype = GrB_BOOL, opcode = opc \<rparr>"

definition bool_semiring :: "GB_Opcode \<Rightarrow> GB_Opcode \<Rightarrow> bool GrB_Semiring" where
  "bool_semiring addc multc =
     \<lparr> add = \<lparr> op = bool_binop addc, identity = False, terminal = None \<rparr>,
       multiply = bool_binop multc \<rparr>"

definition int8_binop :: "GB_Opcode \<Rightarrow> GrB_BinaryOp" where
  "int8_binop opc = \<lparr> xtype = GrB_INT8, ytype = GrB_INT8, ztype = GrB_INT8, opcode = opc \<rparr>"

definition int8_semiring :: "GB_Opcode \<Rightarrow> GB_Opcode \<Rightarrow> int GrB_Semiring" where
  "int8_semiring addc multc =
     \<lparr> add = \<lparr> op = int8_binop addc, identity = 0, terminal = None \<rparr>,
       multiply = int8_binop multc \<rparr>"

section \<open>GB_AxB_dot: the dot-product method\<close>

text \<open>
  Lines 76 to 96 of \<open>GB_AxB_dot\<close>: which operand is read as a pattern only. The result is
  the pair \<open>(A_is_pattern, B_is_pattern)\<close>.
\<close>

definition dot_pattern_flags :: "GB_Opcode \<Rightarrow> bool \<Rightarrow> bool \<times> bool" where
  "dot_pattern_flags mult_opc flipxy =
     (let op_is_first = (mult_opc = GB_FIRST_opcode);
          op_is_second = (mult_opc = GB_SECOND_opcode)
      in if flipxy then (op_is_first, op_is_second) else (op_is_second, op_is_first))"

text \<open>
  The generic kernel of \<open>GB_AxB_dot\<close> (function pointers and typecasting). Values are the
  untyped scalars of the source (\<open>GB_void\<close>), here of one type \<open>'v\<close>. \<open>aki_work\<close> and
  \<open>bkj_work\<close> are the contents of the scalar workspaces \<open>aki\<close> and \<open>bkj\<close> on entry; the
  source declares them without initialising them.
\<close>

record 'v dot_kernel =
  is_pattern_A :: bool
  is_pattern_B :: bool
  cast_A :: "'v \<Rightarrow> 'v"
  cast_B :: "'v \<Rightarrow> 'v"
  fmult :: "'v \<Rightarrow> 'v \<Rightarrow> 'v"
  fadd :: "'v \<Rightarrow> 'v \<Rightarrow> 'v"
  dot_terminal :: "'v option"
  dot_flipxy :: bool
  aki_work :: 'v
  bkj_work :: 'v

text \<open>\<open>GB_GETA\<close>: \<open>if (!A_is_pattern) cast_A (aki, Ax +((pA)*asize), asize)\<close>; \<open>GB_GETB\<close> alike.\<close>

definition GB_GETA :: "'v dot_kernel \<Rightarrow> 'v \<Rightarrow> 'v" where
  "GB_GETA K a = (if \<not> is_pattern_A K then cast_A K a else aki_work K)"

definition GB_GETB :: "'v dot_kernel \<Rightarrow> 'v \<Rightarrow> 'v" where
  "GB_GETB K b = (if \<not> is_pattern_B K then cast_B K b else bkj_work K)"

text \<open>
  \<open>GB_DOT_MULT\<close>: \<open>GB_MULTIPLY (t, aki, bkj)\<close>, which is \<open>fmult (z,y,x)\<close> in the \<open>flipxy\<close>
  branch and \<open>fmult (z,x,y)\<close> in the other.
\<close>

definition GB_DOT_MULT :: "'v dot_kernel \<Rightarrow> 'v \<Rightarrow> 'v \<Rightarrow> 'v" where
  "GB_DOT_MULT K aki bkj = (if dot_flipxy K then fmult K bkj aki else fmult K aki bkj)"

text \<open>
  \<open>GB_DOT_TERMINAL\<close>: \<open>terminal != NULL && memcmp (cij, terminal, csize) == 0\<close>, the
  condition of the \<open>break\<close>.
\<close>

definition GB_DOT_TERMINAL :: "'v dot_kernel \<Rightarrow> 'v \<Rightarrow> bool" where
  "GB_DOT_TERMINAL K cij = (case dot_terminal K of None \<Rightarrow> False | Some t \<Rightarrow> cij = t)"

text \<open>
  Modelled from the spec: the loop of one dot product is in \<open>GB_AxB_dot_meta.c\<close>, which is
  not among the sources; the macros it is built from are the ones above. The spec (4.4.1,
  4.4.5): \<open>C(i,j)\<close> is the reduction over \<open>k\<close> of \<open>A(k,i)\<close> times \<open>B(k,j)\<close>, and the inner
  accumulation exits as soon as the cell reaches the terminal value. The two vectors
  \<open>A(:,i)\<close> and \<open>B(:,j)\<close> are lists of (index, value) in the order of storage, merged by
  index; \<open>cij\<close> is \<open>None\<close> until the first product (\<open>GB_DOT_COPY\<close>), later products are
  added (\<open>GB_DOT_ADD\<close>), and \<open>GB_DOT_TERMINAL\<close> is tested after each: its \<open>break\<close> leaves the
  loop. The loop returns \<open>cij\<close> together with the number of products it has computed when
  it is left, which says how far it ran.
\<close>

fun dot_loop ::
  "'v dot_kernel \<Rightarrow> (int \<times> 'v) list \<Rightarrow> (int \<times> 'v) list \<Rightarrow> 'v option \<Rightarrow> 'v option \<times> nat"
where
  "dot_loop K [] bs cij = (cij, 0)"
| "dot_loop K (a # as) [] cij = (cij, 0)"
| "dot_loop K ((ia, a) # as) ((ib, b) # bs) cij =
     (if ia < ib then dot_loop K as ((ib, b) # bs) cij
      else if ib < ia then dot_loop K ((ia, a) # as) bs cij
      else
        let aki = GB_GETA K a;
            bkj = GB_GETB K b;
            t = GB_DOT_MULT K aki bkj;
            cij' = (case cij of None \<Rightarrow> t | Some c \<Rightarrow> fadd K c t)
        in if GB_DOT_TERMINAL K cij' then (Some cij', 1)
           else (let (c, n) = dot_loop K as bs (Some cij') in (c, n + 1)))"

text \<open>The value that the loop leaves in \<open>cij\<close>: the entry \<open>C(i,j)\<close>, or no entry.\<close>

definition dot_cij ::
  "'v dot_kernel \<Rightarrow> (int \<times> 'v) list \<Rightarrow> (int \<times> 'v) list \<Rightarrow> 'v option \<Rightarrow> 'v option"
where
  "dot_cij K as bs cij = fst (dot_loop K as bs cij)"

text \<open>
  The full reduction, in the spec's words: the products \<open>A(k,i)\<close> times \<open>B(k,j)\<close> for every
  \<open>k\<close> present in both vectors, all of them added up by the monoid; no entry when there is
  no such \<open>k\<close>.
\<close>

fun dot_products :: "'v dot_kernel \<Rightarrow> (int \<times> 'v) list \<Rightarrow> (int \<times> 'v) list \<Rightarrow> 'v list" where
  "dot_products K [] bs = []"
| "dot_products K (a # as) [] = []"
| "dot_products K ((ia, a) # as) ((ib, b) # bs) =
     (if ia < ib then dot_products K as ((ib, b) # bs)
      else if ib < ia then dot_products K ((ia, a) # as) bs
      else GB_DOT_MULT K (GB_GETA K a) (GB_GETB K b) # dot_products K as bs)"

fun reduce_all :: "('v \<Rightarrow> 'v \<Rightarrow> 'v) \<Rightarrow> 'v list \<Rightarrow> 'v option" where
  "reduce_all f [] = None"
| "reduce_all f (t # ts) = Some (foldl f t ts)"

text \<open>
  "As soon as the cell reaches terminal", in the spec's words: the values that the cell
  takes while the products are added one after the other, and the number of products up to
  and including the first one at which the cell equals the terminal value, all of them if
  it never does.
\<close>

fun running_reductions :: "('v \<Rightarrow> 'v \<Rightarrow> 'v) \<Rightarrow> 'v \<Rightarrow> 'v list \<Rightarrow> 'v list" where
  "running_reductions f c [] = []"
| "running_reductions f c (t # ts) = f c t # running_reductions f (f c t) ts"

definition cell_values :: "('v \<Rightarrow> 'v \<Rightarrow> 'v) \<Rightarrow> 'v list \<Rightarrow> 'v list" where
  "cell_values f ts = (case ts of [] \<Rightarrow> [] | t # ts' \<Rightarrow> t # running_reductions f t ts')"

definition products_until_terminal :: "'v \<Rightarrow> 'v list \<Rightarrow> nat" where
  "products_until_terminal T cs = min (length cs) (Suc (length (takeWhile (\<lambda>c. c \<noteq> T) cs)))"

text \<open>The generic kernel of the semiring MAX_TIMES over integers with terminal value 100.\<close>

definition max_times_kernel :: "int dot_kernel" where
  "max_times_kernel =
     \<lparr> is_pattern_A = False, is_pattern_B = False, cast_A = (\<lambda>x. x), cast_B = (\<lambda>x. x),
       fmult = (\<lambda>x y. x * y), fadd = (\<lambda>x y. min 100 (max x y)), dot_terminal = Some 100,
       dot_flipxy = False, aki_work = 0, bkj_work = 0 \<rparr>"

text \<open>
  The set-up of the generic kernel in \<open>GB_AxB_dot\<close>: the two flags come from the
  multiplier's opcode and \<open>flipxy\<close> (lines 76 to 96), the functions from the semiring, the
  casts from the types of \<open>A\<close> and \<open>B\<close>.
\<close>

definition GB_AxB_dot_generic ::
  "GB_Opcode \<Rightarrow> bool \<Rightarrow> ('v \<Rightarrow> 'v \<Rightarrow> 'v) \<Rightarrow> ('v \<Rightarrow> 'v \<Rightarrow> 'v) \<Rightarrow> 'v option \<Rightarrow>
   ('v \<Rightarrow> 'v) \<Rightarrow> ('v \<Rightarrow> 'v) \<Rightarrow> 'v \<Rightarrow> 'v \<Rightarrow> 'v dot_kernel"
where
  "GB_AxB_dot_generic mult_opc flipxy fmult_f fadd_f term cA cB aki bkj =
     \<lparr> is_pattern_A = fst (dot_pattern_flags mult_opc flipxy),
       is_pattern_B = snd (dot_pattern_flags mult_opc flipxy),
       cast_A = cA, cast_B = cB, fmult = fmult_f, fadd = fadd_f,
       dot_terminal = term, dot_flipxy = flipxy, aki_work = aki, bkj_work = bkj \<rparr>"

text \<open>
  The functions of the operators FIRST, SECOND and PAIR. The files that define them are not
  among the sources; \<open>first(x,y) = x\<close> and \<open>second(x,y) = y\<close> are what the names say and what
  \<open>GB_dense_accum_sparse\<close> relies on, and PAIR is \<open>z = 1\<close> in \<open>GB_ew__pair_uint8.c\<close>.
\<close>

definition GB_FIRST_f :: "int \<Rightarrow> int \<Rightarrow> int" where
  "GB_FIRST_f x y = x"

definition GB_SECOND_f :: "int \<Rightarrow> int \<Rightarrow> int" where
  "GB_SECOND_f x y = y"

definition GB_PAIR_f :: "int \<Rightarrow> int \<Rightarrow> int" where
  "GB_PAIR_f x y = 1"

text \<open>The generic kernel of the semiring PLUS_FIRST over integers, without and with \<open>flipxy\<close>.\<close>

definition plus_first_kernel :: "bool \<Rightarrow> int dot_kernel" where
  "plus_first_kernel flipxy =
     GB_AxB_dot_generic GB_FIRST_opcode flipxy GB_FIRST_f (\<lambda>x y. x + y) None
       (\<lambda>x. x) (\<lambda>x. x) 0 0"

section \<open>Return codes and the matrix object\<close>

datatype GrB_Info =
    GrB_SUCCESS | GrB_NO_VALUE | GrB_UNINITIALIZED_OBJECT | GrB_NULL_POINTER
  | GrB_INVALID_VALUE | GrB_INVALID_OBJECT | GrB_INDEX_OUT_OF_BOUNDS
  | GrB_DOMAIN_MISMATCH | GrB_DIMENSION_MISMATCH | GrB_OUTPUT_NOT_EMPTY
  | GrB_OUT_OF_MEMORY | GrB_PANIC

datatype GB_magic = GB_MAGIC | GB_MAGIC2

datatype GxB_format = GxB_HYPERSPARSE | GxB_SPARSE | GxB_BITMAP | GxB_FULL

text \<open>
  The fields of \<open>struct GB_Matrix_opaque\<close> that the sources read and write. The arrays
  \<open>A->h\<close>, \<open>A->p\<close>, \<open>A->i\<close>, \<open>A->x\<close>, \<open>A->b\<close> are pointers: \<open>None\<close> is \<open>NULL\<close>.
\<close>

record 'v GB_Matrix_opaque =
  magic :: GB_magic
  type :: GrB_Type
  is_csc :: bool
  vlen :: int
  vdim :: int
  nvec :: int
  plen :: int
  nvec_nonempty :: int
  nzmax :: int
  h_ptr :: "int list option"
  p_ptr :: "int list option"
  i_ptr :: "int list option"
  x_ptr :: "'v list option"
  b_ptr :: "bool list option"
  iso :: bool
  jumbled :: bool
  sparsity_control :: "GxB_format set"

definition GB_NROWS :: "'v GB_Matrix_opaque \<Rightarrow> int" where
  "GB_NROWS A = (if is_csc A then vlen A else vdim A)"

definition GB_NCOLS :: "'v GB_Matrix_opaque \<Rightarrow> int" where
  "GB_NCOLS A = (if is_csc A then vdim A else vlen A)"

definition GB_IS_FULL :: "'v GB_Matrix_opaque \<Rightarrow> bool" where
  "GB_IS_FULL A = (h_ptr A = None \<and> p_ptr A = None \<and> i_ptr A = None \<and> b_ptr A = None)"

section \<open>GB_ewise: the checks of the inputs\<close>

text \<open>
  Modelled from the spec: \<open>GB_Type_compatible\<close> is not among the sources. The spec gives the
  element types a cast table between the built-in types; a user-defined type can only be
  copied to itself.
\<close>

definition GB_Type_compatible :: "GrB_Type \<Rightarrow> GrB_Type \<Rightarrow> bool" where
  "GB_Type_compatible atype btype =
     (if type_code_rank (code atype) \<ge> type_code_rank GB_UCT_code \<or>
         type_code_rank (code btype) \<ge> type_code_rank GB_UCT_code
      then atype = btype else True)"

text \<open>
  Lines 57 to 115 of \<open>GB_ewise\<close>. The results of \<open>GB_RETURN_IF_FAULTY_OR_POSITIONAL (accum)\<close>,
  of \<open>GB_compatible\<close> and of \<open>GB_BinaryOp_compatible\<close>, none of them among the sources, are the
  first three arguments: each is \<open>GrB_SUCCESS\<close> or the error the function returns at once.
\<close>

definition GB_ewise_check ::
  "GrB_Info \<Rightarrow> GrB_Info \<Rightarrow> GrB_Info \<Rightarrow> 'v GB_Matrix_opaque \<Rightarrow>
   'v GB_Matrix_opaque \<Rightarrow> bool \<Rightarrow> 'v GB_Matrix_opaque \<Rightarrow> bool \<Rightarrow> bool \<Rightarrow> GrB_Info"
where
  "GB_ewise_check accum_info compatible_info binop_info C A A_transpose B B_transpose eWiseAdd =
    (if accum_info \<noteq> GrB_SUCCESS then accum_info
     else if compatible_info \<noteq> GrB_SUCCESS then compatible_info
     else if binop_info \<noteq> GrB_SUCCESS then binop_info
     else if eWiseAdd \<and> \<not> GB_Type_compatible (type C) (type A) then GrB_DOMAIN_MISMATCH
     else if eWiseAdd \<and> \<not> GB_Type_compatible (type C) (type B) then GrB_DOMAIN_MISMATCH
     else
       let anrows = (if A_transpose then GB_NCOLS A else GB_NROWS A);
           ancols = (if A_transpose then GB_NROWS A else GB_NCOLS A);
           bnrows = (if B_transpose then GB_NCOLS B else GB_NROWS B);
           bncols = (if B_transpose then GB_NROWS B else GB_NCOLS B);
           cnrows = GB_NROWS C;
           cncols = GB_NCOLS C
       in if anrows \<noteq> bnrows \<or> ancols \<noteq> bncols \<or> cnrows \<noteq> anrows \<or> cncols \<noteq> bncols
          then GrB_DIMENSION_MISMATCH
          else GrB_SUCCESS)"

text \<open>
  \<open>GB_ewise\<close> as a function of \<open>C\<close>: the result is the return code and \<open>C\<close> after the call.
  Every check returns before anything is written; \<open>compute\<close> is the remainder of the
  function (from line 117 on), which is the only part that writes \<open>C\<close>.
\<close>

definition GB_ewise ::
  "GrB_Info \<Rightarrow> GrB_Info \<Rightarrow> GrB_Info \<Rightarrow> ('v GB_Matrix_opaque \<Rightarrow> GrB_Info \<times> 'v GB_Matrix_opaque) \<Rightarrow>
   'v GB_Matrix_opaque \<Rightarrow> 'v GB_Matrix_opaque \<Rightarrow> bool \<Rightarrow> 'v GB_Matrix_opaque \<Rightarrow> bool \<Rightarrow> bool \<Rightarrow>
   GrB_Info \<times> 'v GB_Matrix_opaque"
where
  "GB_ewise accum_info compatible_info binop_info compute C A A_transpose B B_transpose eWiseAdd =
    (let info = GB_ewise_check accum_info compatible_info binop_info C A A_transpose
                  B B_transpose eWiseAdd
     in if info \<noteq> GrB_SUCCESS then (info, C) else compute C)"

text \<open>Matrices for the examples: an empty CSC matrix of a given type and shape.\<close>

definition GrB_UDT :: GrB_Type where
  "GrB_UDT = \<lparr> code = GB_UDT_code, size = 16, name = ''my_type'' \<rparr>"

definition empty_csc :: "GrB_Type \<Rightarrow> int \<Rightarrow> int \<Rightarrow> int GB_Matrix_opaque" where
  "empty_csc t nrows ncols =
     \<lparr> magic = GB_MAGIC, type = t, is_csc = True, vlen = nrows, vdim = ncols, nvec = ncols,
       plen = ncols, nvec_nonempty = 0, nzmax = 0, h_ptr = None,
       p_ptr = Some (replicate (nat ncols + 1) 0), i_ptr = None, x_ptr = None, b_ptr = None,
       iso = False, jumbled = False, sparsity_control = {GxB_SPARSE, GxB_HYPERSPARSE} \<rparr>"

section \<open>Dense accumulation: GB_dense_accum_sparse and GB_subassign_23\<close>

text \<open>
  \<open>GB_dense_accum_sparse\<close>: \<open>C += A\<close> with \<open>C\<close> dense. The first argument is the remainder of
  the function after the test of the opcode (slicing, the kernels, the generic loop), which
  is the part that writes \<open>C\<close>.
\<close>

definition GB_dense_accum_sparse ::
  "('v GB_Matrix_opaque \<Rightarrow> 'v GB_Matrix_opaque \<Rightarrow> GrB_BinaryOp \<Rightarrow> GrB_Info \<times> 'v GB_Matrix_opaque) \<Rightarrow>
   'v GB_Matrix_opaque \<Rightarrow> 'v GB_Matrix_opaque \<Rightarrow> GrB_BinaryOp \<Rightarrow> GrB_Info \<times> 'v GB_Matrix_opaque"
where
  "GB_dense_accum_sparse accumulate C A accum =
     (if opcode accum = GB_FIRST_opcode then (GrB_SUCCESS, C)
      else accumulate C A accum)"

text \<open>
  Modelled from the spec: the macro \<open>GB_ENSURE_FULL\<close> and \<open>GB_convert_any_to_full\<close> are not
  among the sources. The call site says "convert C to full, if sparsity control allows it";
  by the spec (4.1) the full format is the dense value array alone, without presence bits
  or index arrays, and a transition between formats does not change the entries. The
  conversion drops \<open>h\<close>, \<open>p\<close>, \<open>i\<close> and \<open>b\<close>; the values of a dense matrix that is not jumbled
  are already in place.
\<close>

definition GB_convert_any_to_full :: "'v GB_Matrix_opaque \<Rightarrow> 'v GB_Matrix_opaque" where
  "GB_convert_any_to_full C =
     C\<lparr> h_ptr := None, p_ptr := None, i_ptr := None, b_ptr := None \<rparr>"

definition GB_ENSURE_FULL :: "'v GB_Matrix_opaque \<Rightarrow> 'v GB_Matrix_opaque" where
  "GB_ENSURE_FULL C =
     (if GxB_FULL \<in> sparsity_control C then GB_convert_any_to_full C else C)"

text \<open>
  \<open>GB_subassign_23\<close>: \<open>GB_ENSURE_FULL (C)\<close> comes before the test of the opcode and of
  \<open>C->iso\<close>; the first argument is again the remainder of the function.
\<close>

definition GB_subassign_23 ::
  "('v GB_Matrix_opaque \<Rightarrow> 'v GB_Matrix_opaque \<Rightarrow> GrB_BinaryOp \<Rightarrow> GrB_Info \<times> 'v GB_Matrix_opaque) \<Rightarrow>
   'v GB_Matrix_opaque \<Rightarrow> 'v GB_Matrix_opaque \<Rightarrow> GrB_BinaryOp \<Rightarrow> GrB_Info \<times> 'v GB_Matrix_opaque"
where
  "GB_subassign_23 accumulate C A accum =
     (let C1 = GB_ENSURE_FULL C in
      if opcode accum = GB_FIRST_opcode \<or> iso C1 then (GrB_SUCCESS, C1)
      else accumulate C1 A accum)"

text \<open>
  A dense 2-by-2 integer matrix held in the sparse format, whose sparsity control allows the
  full format, and the accumulator FIRST over 8-bit integers.
\<close>

definition dense_as_sparse :: "int GB_Matrix_opaque" where
  "dense_as_sparse =
     \<lparr> magic = GB_MAGIC, type = GrB_INT8, is_csc = True, vlen = 2, vdim = 2, nvec = 2,
       plen = 2, nvec_nonempty = 2, nzmax = 4, h_ptr = None,
       p_ptr = Some [0, 2, 4], i_ptr = Some [0, 1, 0, 1], x_ptr = Some [10, 20, 30, 40],
       b_ptr = None, iso = False, jumbled = False,
       sparsity_control = {GxB_SPARSE, GxB_FULL} \<rparr>"

section \<open>GxB_Matrix_import_CSC\<close>

text \<open>
  Modelled from the spec: \<open>GB_NEW\<close> is not among the sources. Called with \<open>GB_Ap_null\<close> and
  \<open>GB_FORCE_NONHYPER\<close> it allocates "just the header of the matrix, not the content": a
  column-oriented, non-hypersparse header of the given type and shape with no arrays, not
  yet marked valid.
\<close>

definition GB_NEW_header :: "GrB_Type \<Rightarrow> int \<Rightarrow> int \<Rightarrow> 'v GB_Matrix_opaque" where
  "GB_NEW_header t nrows ncols =
     \<lparr> magic = GB_MAGIC2, type = t, is_csc = True, vlen = nrows, vdim = ncols, nvec = 0,
       plen = 0, nvec_nonempty = 0, nzmax = 0, h_ptr = None, p_ptr = None, i_ptr = None,
       x_ptr = None, b_ptr = None, iso = False, jumbled = False,
       sparsity_control = {GxB_SPARSE, GxB_BITMAP, GxB_FULL} \<rparr>"

text \<open>
  Modelled from the spec: \<open>GB_nvec_nonempty\<close> is not among the sources; it counts the
  vectors \<open>k\<close> in \<open>0..nvec-1\<close> with \<open>p[k] < p[k+1]\<close>. There is nothing to count, and nothing
  is read, when \<open>nvec\<close> is not positive. Otherwise it reads \<open>p[0..nvec]\<close>: the result is
  \<open>None\<close> when \<open>p\<close> is \<open>NULL\<close> or shorter than that, where the C code reads invalid memory.
\<close>

definition GB_nvec_nonempty :: "'v GB_Matrix_opaque \<Rightarrow> int option" where
  "GB_nvec_nonempty A =
     (if nvec A \<le> 0 then Some 0
      else case p_ptr A of
        None \<Rightarrow> None
      | Some P \<Rightarrow>
          if int (length P) < nvec A + 1 then None
          else Some (int (length (filter (\<lambda>k. P ! k < P ! (k + 1)) [0 ..< nat (nvec A)]))))"

text \<open>
  An argument of type \<open>T **\<close>: \<open>None\<close> is a \<open>NULL\<close> handle, \<open>Some q\<close> a handle to the caller's
  pointer \<open>q\<close>, itself \<open>None\<close> when \<open>NULL\<close>. The result of the import holds the return code,
  the new matrix \<open>*A\<close> and the caller's three pointers after the call.
\<close>

record 'v import_result =
  info :: GrB_Info
  A_out :: "'v GB_Matrix_opaque option"
  Ap_out :: "int list option option"
  Ai_out :: "int list option option"
  Ax_out :: "'v list option option"

text \<open>\<open>GB_FREE_MEMORY (p, n, s)\<close> frees \<open>p\<close> and sets it to \<open>NULL\<close>, where the handle is not \<open>NULL\<close>.\<close>

definition free_if_handle :: "'a list option option \<Rightarrow> 'a list option option" where
  "free_if_handle H = (case H of None \<Rightarrow> None | Some q \<Rightarrow> Some None)"

text \<open>
  \<open>GrB_Index\<close> is \<open>uint64_t\<close>. The dimensions that \<open>GB_NEW\<close> takes and the fields \<open>nzmax\<close>,
  \<open>plen\<close> and \<open>nvec\<close> of the matrix are \<open>int64_t\<close>: storing a \<open>GrB_Index\<close> there keeps its 64
  bits, so a value from \<open>2^63\<close> on is read back negative (\<open>sint\<close>).
\<close>

type_synonym GrB_Index = "64 word"

text \<open>
  \<open>GxB_Matrix_import_CSC\<close>. \<open>import_check\<close> is the result of the macro \<open>GB_IMPORT_CHECK\<close> and
  \<open>new_info\<close> the result of \<open>GB_NEW\<close> (success or out of memory), both not among the sources.
  The whole result is \<open>None\<close> when \<open>GB_nvec_nonempty\<close> reads invalid memory.
\<close>

definition GxB_Matrix_import_CSC ::
  "GrB_Info \<Rightarrow> GrB_Info \<Rightarrow> GrB_Type \<Rightarrow> GrB_Index \<Rightarrow> GrB_Index \<Rightarrow> GrB_Index \<Rightarrow>
   int list option option \<Rightarrow> int list option option \<Rightarrow> 'v list option option \<Rightarrow>
   'v import_result option"
where
  "GxB_Matrix_import_CSC import_check new_info t nrows ncols nvals Ap Ai Ax =
    (let failed = (\<lambda>e. Some \<lparr> info = e, A_out = None, Ap_out = Ap, Ai_out = Ai, Ax_out = Ax \<rparr>)
     in
     if import_check \<noteq> GrB_SUCCESS then failed import_check
     else case Ap of
       None \<Rightarrow> failed GrB_NULL_POINTER
     | Some Ap_ptr \<Rightarrow>
        if 0 < nvals \<and> Ai = None then failed GrB_NULL_POINTER
        else if 0 < nvals \<and> Ax = None then failed GrB_NULL_POINTER
        else if new_info \<noteq> GrB_SUCCESS then failed new_info
        else
          let A0 = GB_NEW_header t (sint nrows) (sint ncols);
              A1 = A0\<lparr> h_ptr := None, p_ptr := Ap_ptr, nzmax := sint nvals,
                       plen := sint ncols, nvec := sint ncols, magic := GB_MAGIC \<rparr>
          in if nvals = 0
             then Some \<lparr> info = GrB_SUCCESS, A_out = Some A1, Ap_out = Some None,
                          Ai_out = free_if_handle Ai, Ax_out = free_if_handle Ax \<rparr>
             else
               let A2 = A1\<lparr> i_ptr := the Ai, x_ptr := the Ax \<rparr>
               in case GB_nvec_nonempty A2 of
                    None \<Rightarrow> None
                  | Some n \<Rightarrow>
                      Some \<lparr> info = GrB_SUCCESS, A_out = Some (A2\<lparr> nvec_nonempty := n \<rparr>),
                             Ap_out = Some None, Ai_out = Some None, Ax_out = Some None \<rparr>)"

text \<open>
  Modelled from the spec: the check of a matrix (\<open>GB_check\<close>) is not among the sources. The
  invariants of a sparse matrix in the spec (section 3): \<open>0 = p[0] \<le> p[1] \<le> \<dots> \<le> p[nvec]\<close>,
  which is the number of entries and fits the arrays \<open>i\<close> and \<open>x\<close>; the inner indices of
  each vector lie in \<open>[0, vlen)\<close> and, when the matrix is not jumbled, increase strictly.
\<close>

definition vector_sorted :: "int list \<Rightarrow> int \<Rightarrow> int \<Rightarrow> bool" where
  "vector_sorted I lo hi =
     (\<forall>k \<in> set [nat lo ..< nat hi]. Suc k < nat hi \<longrightarrow> I ! k < I ! Suc k)"

definition GB_sparse_ok :: "'v GB_Matrix_opaque \<Rightarrow> bool" where
  "GB_sparse_ok A =
     (magic A = GB_MAGIC \<and> h_ptr A = None \<and> b_ptr A = None \<and> 0 \<le> nvec A \<and>
      (case p_ptr A of
         None \<Rightarrow> False
       | Some P \<Rightarrow>
           int (length P) = nvec A + 1 \<and> P ! 0 = 0 \<and> sorted P \<and>
           (let nz = P ! nat (nvec A) in
            nz \<le> nzmax A \<and>
            (nz > 0 \<longrightarrow>
               (case (i_ptr A, x_ptr A) of
                  (Some I, Some X) \<Rightarrow>
                     nz \<le> int (length I) \<and> nz \<le> int (length X) \<and>
                     (\<forall>k \<in> set [0 ..< nat nz]. 0 \<le> I ! k \<and> I ! k < vlen A) \<and>
                     (jumbled A \<or>
                      (\<forall>j \<in> set [0 ..< nat (nvec A)]. vector_sorted I (P ! j) (P ! (j + 1))))
                | _ \<Rightarrow> False)))))"

text \<open>
  The same conditions on the arrays the caller passes to the import, for dimensions and a
  number of entries below \<open>2^63\<close>, which the signed fields of the matrix can hold.
\<close>

definition csc_arrays_ok ::
  "GrB_Index \<Rightarrow> GrB_Index \<Rightarrow> GrB_Index \<Rightarrow> int list option option \<Rightarrow>
   int list option option \<Rightarrow> 'v list option option \<Rightarrow> bool"
where
  "csc_arrays_ok nrows ncols nvals Ap Ai Ax =
     (uint nrows < 2 ^ 63 \<and> uint ncols < 2 ^ 63 \<and> uint nvals < 2 ^ 63 \<and>
      (case Ap of
         Some (Some P) \<Rightarrow>
           length P = unat ncols + 1 \<and> P ! 0 = 0 \<and> sorted P \<and>
           (let nz = P ! unat ncols in
            nz \<le> uint nvals \<and>
            (nz > 0 \<longrightarrow>
               (case (Ai, Ax) of
                  (Some (Some I), Some (Some X)) \<Rightarrow>
                     nz \<le> int (length I) \<and> nz \<le> int (length X) \<and>
                     (\<forall>k \<in> set [0 ..< nat nz]. 0 \<le> I ! k \<and> I ! k < uint nrows) \<and>
                     (\<forall>j \<in> set [0 ..< unat ncols]. vector_sorted I (P ! j) (P ! (j + 1)))
                | _ \<Rightarrow> False)))
       | _ \<Rightarrow> False))"

text \<open>
  The matrix that the import builds from \<open>Ap = [0, 5]\<close>, \<open>Ai = [0, 1]\<close>, \<open>Ax = [7, 9]\<close>, and the
  one it builds for no column, \<open>Ap = [0]\<close> and \<open>nvals = 2^63\<close>.
\<close>

definition wrapped_import :: "int GB_Matrix_opaque" where
  "wrapped_import =
     \<lparr> magic = GB_MAGIC, type = GrB_INT8, is_csc = True, vlen = 2, vdim = 0, nvec = 0,
       plen = 0, nvec_nonempty = 0, nzmax = - (2 ^ 63), h_ptr = None, p_ptr = Some [0],
       i_ptr = Some [], x_ptr = Some [], b_ptr = None, iso = False, jumbled = False,
       sparsity_control = {GxB_SPARSE, GxB_BITMAP, GxB_FULL} \<rparr>"

definition overfull_import :: "int GB_Matrix_opaque" where
  "overfull_import =
     \<lparr> magic = GB_MAGIC, type = GrB_INT8, is_csc = True, vlen = 2, vdim = 1, nvec = 1,
       plen = 1, nvec_nonempty = 1, nzmax = 2, h_ptr = None, p_ptr = Some [0, 5],
       i_ptr = Some [0, 1], x_ptr = Some [7, 9], b_ptr = None, iso = False, jumbled = False,
       sparsity_control = {GxB_SPARSE, GxB_BITMAP, GxB_FULL} \<rparr>"

section \<open>GxB_Matrix_export_CSC\<close>

text \<open>
  What the export depends on: the orientation of the matrix, its format, and its pending
  work (zombies, pending tuples, jumbled vectors).
\<close>

record matrix_status =
  st_is_csc :: bool
  st_format :: GxB_format
  st_nzombies :: nat
  st_npending :: nat
  st_jumbled :: bool

text \<open>
  Modelled from the spec: \<open>GB_transpose\<close>, \<open>GB_Matrix_wait\<close>, \<open>GB_convert_any_to_sparse\<close> and
  \<open>GB_export\<close>, and the macros \<open>GB_MATRIX_WAIT\<close> and \<open>GB_MATRIX_WAIT_IF_PENDING_OR_ZOMBIES\<close>,
  are not among the sources. By the spec, \<open>wait\<close> clears zombies, pending tuples and the
  jumbled flag (4.2); a transition between formats is pure (3, 4.1); the transpose in place
  to a requested orientation yields that orientation. What the transpose leaves of the
  pending work is not said, so it is an argument (\<open>transposed\<close>). Each of the four calls can
  fail (out of memory); their return codes are arguments too.
\<close>

definition GB_Matrix_wait :: "matrix_status \<Rightarrow> matrix_status" where
  "GB_Matrix_wait A = A\<lparr> st_nzombies := 0, st_npending := 0, st_jumbled := False \<rparr>"

definition GB_MATRIX_WAIT :: "matrix_status \<Rightarrow> matrix_status" where
  "GB_MATRIX_WAIT A =
     (if st_nzombies A > 0 \<or> st_npending A > 0 \<or> st_jumbled A then GB_Matrix_wait A else A)"

definition GB_MATRIX_WAIT_IF_PENDING_OR_ZOMBIES :: "matrix_status \<Rightarrow> matrix_status" where
  "GB_MATRIX_WAIT_IF_PENDING_OR_ZOMBIES A =
     (if st_nzombies A > 0 \<or> st_npending A > 0 then GB_Matrix_wait A else A)"

definition GB_transpose_in_place :: "matrix_status \<Rightarrow> bool \<Rightarrow> matrix_status \<Rightarrow> matrix_status" where
  "GB_transpose_in_place transposed C_is_csc A = transposed\<lparr> st_is_csc := C_is_csc \<rparr>"

definition GB_convert_any_to_sparse :: "matrix_status \<Rightarrow> matrix_status" where
  "GB_convert_any_to_sparse A = A\<lparr> st_format := GxB_SPARSE \<rparr>"

text \<open>
  \<open>GxB_Matrix_export_CSC\<close>. \<open>jumbled\<close> is the caller's output argument: \<open>None\<close> when it is
  \<open>NULL\<close>. The result is the return code, the matrix whose arrays are handed out (on
  success), and the value written to \<open>*jumbled\<close>. \<open>GB_export\<close> reports \<open>A->jumbled\<close> there.
\<close>

record export_result =
  export_info :: GrB_Info
  exported :: "matrix_status option"
  jumbled_out :: "bool option"

definition GxB_Matrix_export_CSC ::
  "GrB_Info \<Rightarrow> matrix_status \<Rightarrow> GrB_Info \<Rightarrow> GrB_Info \<Rightarrow> GrB_Info \<Rightarrow> GrB_Info \<Rightarrow>
   matrix_status \<Rightarrow> unit option \<Rightarrow> export_result"
where
  "GxB_Matrix_export_CSC check_info transposed transpose_info wait_info convert_info
       gb_export_info A jumbled_handle =
    (let failed = (\<lambda>e. \<lparr> export_info = e, exported = None, jumbled_out = None \<rparr>) in
     if check_info \<noteq> GrB_SUCCESS then failed check_info
     else if \<not> st_is_csc A \<and> transpose_info \<noteq> GrB_SUCCESS then failed transpose_info
     else
       let A1 = (if \<not> st_is_csc A then GB_transpose_in_place transposed True A else A);
           work = (if jumbled_handle = None
                   then st_nzombies A1 > 0 \<or> st_npending A1 > 0 \<or> st_jumbled A1
                   else st_nzombies A1 > 0 \<or> st_npending A1 > 0)
       in if work \<and> wait_info \<noteq> GrB_SUCCESS then failed wait_info
          else
            let A2 = (if jumbled_handle = None then GB_MATRIX_WAIT A1
                      else GB_MATRIX_WAIT_IF_PENDING_OR_ZOMBIES A1)
            in if convert_info \<noteq> GrB_SUCCESS then failed convert_info
               else
                 let A3 = GB_convert_any_to_sparse A2
                 in if gb_export_info \<noteq> GrB_SUCCESS then failed gb_export_info
                    else \<lparr> export_info = GrB_SUCCESS, exported = Some A3,
                           jumbled_out = (case jumbled_handle of None \<Rightarrow> None
                                          | Some u \<Rightarrow> Some (st_jumbled A3)) \<rparr>)"

text \<open>A row-oriented bitmap matrix with zombies, and a jumbled sparse CSC matrix.\<close>

definition csr_with_zombies :: matrix_status where
  "csr_with_zombies =
     \<lparr> st_is_csc = False, st_format = GxB_BITMAP, st_nzombies = 3, st_npending = 2,
       st_jumbled = True \<rparr>"

definition jumbled_csc :: matrix_status where
  "jumbled_csc =
     \<lparr> st_is_csc = True, st_format = GxB_SPARSE, st_nzombies = 0, st_npending = 0,
       st_jumbled = True \<rparr>"

section \<open>GB_ewise: from the tentative result T to C\<close>

text \<open>
  The logical content of a matrix: the entry at each position (row, column), with the
  orientation of the storage and the bound \<open>GB_NNZ_UPPER_BOUND\<close> on its number of entries
  (entries, zombies and pending tuples together).
\<close>

record 'v logical_matrix =
  lm_is_csc :: bool
  lm_entries :: "int \<times> int \<Rightarrow> 'v option"
  lm_nnz_upper_bound :: nat

text \<open>
  Modelled from the spec (4.3): the value of the mask at a cell. An absent mask is true
  everywhere; a structural mask is true where it has an entry, a valued mask where its
  entry is true; \<open>Mask_comp\<close> inverts the result. The entries of \<open>M\<close> are given as booleans
  (their values typecast to \<open>bool\<close>).
\<close>

definition mask_at ::
  "(int \<times> int \<Rightarrow> bool option) option \<Rightarrow> bool \<Rightarrow> bool \<Rightarrow> int \<times> int \<Rightarrow> bool"
where
  "mask_at M Mask_struct Mask_comp ij =
     (let m = (case M of
                 None \<Rightarrow> True
               | Some Mm \<Rightarrow> (case Mm ij of None \<Rightarrow> False | Some v \<Rightarrow> Mask_struct \<or> v))
      in if Mask_comp then \<not> m else m)"

text \<open>
  Modelled from the spec (4.3): the masked accumulation protocol, cell by cell. \<open>cast\<close> is
  the typecast from the type of \<open>Z\<close> to the type of \<open>C\<close>.
\<close>

definition masked_accum_cell ::
  "('z \<Rightarrow> 'c) \<Rightarrow> bool \<Rightarrow> bool \<Rightarrow> ('c \<Rightarrow> 'z \<Rightarrow> 'c) option \<Rightarrow> 'c option \<Rightarrow> 'z option \<Rightarrow> 'c option"
where
  "masked_accum_cell cast m C_replace accum c z =
     (if \<not> m then (if C_replace then None else c)
      else case accum of
             None \<Rightarrow> map_option cast z
           | Some f \<Rightarrow>
               (case (c, z) of
                  (Some cv, Some zv) \<Rightarrow> Some (f cv zv)
                | (None, Some zv) \<Rightarrow> Some (cast zv)
                | (Some cv, None) \<Rightarrow> Some cv
                | (None, None) \<Rightarrow> None))"

definition masked_accum_protocol ::
  "('z \<Rightarrow> 'c) \<Rightarrow> (int \<times> int \<Rightarrow> 'c option) \<Rightarrow> (int \<times> int \<Rightarrow> bool option) option \<Rightarrow>
   ('c \<Rightarrow> 'z \<Rightarrow> 'c) option \<Rightarrow> (int \<times> int \<Rightarrow> 'z option) \<Rightarrow> bool \<Rightarrow> bool \<Rightarrow> bool \<Rightarrow>
   int \<times> int \<Rightarrow> 'c option"
where
  "masked_accum_protocol cast C M accum Z C_replace Mask_comp Mask_struct =
     (\<lambda>ij. masked_accum_cell cast (mask_at M Mask_struct Mask_comp ij) C_replace accum
             (C ij) (Z ij))"

text \<open>
  Modelled from the spec: \<open>GB_accum_mask\<close> and \<open>GB_transplant_conform\<close> are not among the
  sources. The first is the protocol; the second is the fast path of the spec: \<open>C\<close> is
  discarded and \<open>T\<close> is transplanted in its place, typecast to the type of \<open>C\<close>.
\<close>

definition GB_accum_mask ::
  "('z \<Rightarrow> 'c) \<Rightarrow> 'c logical_matrix \<Rightarrow> (int \<times> int \<Rightarrow> bool option) option \<Rightarrow>
   ('c \<Rightarrow> 'z \<Rightarrow> 'c) option \<Rightarrow> 'z logical_matrix \<Rightarrow> bool \<Rightarrow> bool \<Rightarrow> bool \<Rightarrow> 'c logical_matrix"
where
  "GB_accum_mask cast C M accum T C_replace Mask_comp Mask_struct =
     C\<lparr> lm_entries := masked_accum_protocol cast (lm_entries C) M accum (lm_entries T)
                         C_replace Mask_comp Mask_struct,
        lm_nnz_upper_bound := lm_nnz_upper_bound C + lm_nnz_upper_bound T \<rparr>"

definition GB_transplant_conform ::
  "('z \<Rightarrow> 'c) \<Rightarrow> 'c logical_matrix \<Rightarrow> 'z logical_matrix \<Rightarrow> 'c logical_matrix"
where
  "GB_transplant_conform cast C T =
     \<lparr> lm_is_csc = lm_is_csc T, lm_entries = (\<lambda>ij. map_option cast (lm_entries T ij)),
       lm_nnz_upper_bound = lm_nnz_upper_bound T \<rparr>"

text \<open>
  Lines 402 to 424 of \<open>GB_ewise\<close>: the choice between the transplant and \<open>GB_accum_mask\<close>.
  \<open>mask_applied\<close> is the flag that \<open>GB_add\<close> and \<open>GB_emult\<close> set when they have applied the
  mask while they built \<open>T\<close>.
\<close>

definition GB_ewise_finish ::
  "('z \<Rightarrow> 'c) \<Rightarrow> 'c logical_matrix \<Rightarrow> bool \<Rightarrow> (int \<times> int \<Rightarrow> bool option) option \<Rightarrow> bool \<Rightarrow>
   bool \<Rightarrow> ('c \<Rightarrow> 'z \<Rightarrow> 'c) option \<Rightarrow> 'z logical_matrix \<Rightarrow> bool \<Rightarrow> 'c logical_matrix"
where
  "GB_ewise_finish cast C C_replace M Mask_comp Mask_struct accum T mask_applied =
     (if accum = None \<and> lm_is_csc C = lm_is_csc T
         \<and> (M = None \<or> (M \<noteq> None \<and> mask_applied))
         \<and> (C_replace \<or> lm_nnz_upper_bound C = 0)
      then GB_transplant_conform cast C T
      else GB_accum_mask cast C M accum T C_replace Mask_comp Mask_struct)"

text \<open>Two small matrices: \<open>C\<close> with the entry \<open>(0,0) = 1\<close>, \<open>T\<close> with the entry \<open>(1,1) = 5\<close>.\<close>

definition one_entry :: "int \<times> int \<Rightarrow> int \<Rightarrow> int logical_matrix" where
  "one_entry pos v =
     \<lparr> lm_is_csc = True, lm_entries = (\<lambda>ij. if ij = pos then Some v else None),
       lm_nnz_upper_bound = 1 \<rparr>"

section \<open>GB_emult_template: one vector of C = A.*B\<close>

text \<open>
  Modelled from the spec: the macro \<open>GB_BINARY_SEARCH\<close> is defined in the header \<open>GB.h\<close>,
  which is not among the sources. The spec (4.5) names the binary search of a vector's
  indices. It is the binary search of \<open>X [pleft..pright]\<close> for \<open>i\<close> that narrows the two
  bounds in place: on exit \<open>pleft\<close> is the position where the search ended and \<open>found\<close> says
  whether \<open>X [pleft] == i\<close>. The template relies on \<open>pleft\<close> being updated (the next search
  starts from it). The positions are never negative where the quotient is taken, so the
  truncating division of C is \<open>div\<close>.
\<close>

function GB_BINARY_TRIM_SEARCH :: "int \<Rightarrow> int list \<Rightarrow> int \<Rightarrow> int \<Rightarrow> int \<times> int" where
  "GB_BINARY_TRIM_SEARCH i X pleft pright =
     (if pleft < pright then
        let pmiddle = (pleft + pright) div 2 in
        if X ! nat pmiddle < i then GB_BINARY_TRIM_SEARCH i X (pmiddle + 1) pright
        else GB_BINARY_TRIM_SEARCH i X pleft pmiddle
      else (pleft, pright))"
  by pat_completeness auto
termination
  by (relation "measure (\<lambda>(i, X, pleft, pright). nat (pright - pleft))") auto

definition GB_BINARY_SEARCH :: "int \<Rightarrow> int list \<Rightarrow> int \<Rightarrow> int \<Rightarrow> int \<times> bool" where
  "GB_BINARY_SEARCH i X pleft pright =
     (let (pl, pr) = GB_BINARY_TRIM_SEARCH i X pleft pright
      in (pl, pl = pr \<and> X ! nat pl = i))"

text \<open>
  The loops of the template. Each returns the entries it writes, in the order of \<open>pC\<close>:
  the pair of \<open>Ci [pC]\<close> and \<open>Cx [pC]\<close>. In phase 1 the same loops only count them.
  \<open>op\<close> is \<open>GB_BINOP\<close> applied to \<open>aij\<close> and \<open>bij\<close>.
\<close>

text \<open>A(:,j) and B(:,j) dense.\<close>

definition emult_dense_dense ::
  "('a \<Rightarrow> 'b \<Rightarrow> 'c) \<Rightarrow> 'a list \<Rightarrow> 'b list \<Rightarrow> int \<Rightarrow> int \<Rightarrow> int \<Rightarrow> int \<Rightarrow> (int \<times> 'c) list"
where
  "emult_dense_dense binop Ax Bx pA pB ajnz iA_first =
     map (\<lambda>p. (p + iA_first, binop (Ax ! nat (pA + p)) (Bx ! nat (pB + p)))) [0 .. ajnz - 1]"

text \<open>A(:,j) dense, B(:,j) sparse.\<close>

definition emult_dense_sparse ::
  "('a \<Rightarrow> 'b \<Rightarrow> 'c) \<Rightarrow> 'a list \<Rightarrow> int list \<Rightarrow> 'b list \<Rightarrow> int \<Rightarrow> int \<Rightarrow> int \<Rightarrow> int \<Rightarrow>
   (int \<times> 'c) list"
where
  "emult_dense_sparse binop Ax Bi Bx pA pB bjnz iA_first =
     map (\<lambda>p. let i = Bi ! nat (pB + p)
               in (i, binop (Ax ! nat (pA + i - iA_first)) (Bx ! nat (pB + p)))) [0 .. bjnz - 1]"

text \<open>A(:,j) sparse, B(:,j) dense.\<close>

definition emult_sparse_dense ::
  "('a \<Rightarrow> 'b \<Rightarrow> 'c) \<Rightarrow> int list \<Rightarrow> 'a list \<Rightarrow> 'b list \<Rightarrow> int \<Rightarrow> int \<Rightarrow> int \<Rightarrow> int \<Rightarrow>
   (int \<times> 'c) list"
where
  "emult_sparse_dense binop Ai Ax Bx pA pB ajnz iB_first =
     map (\<lambda>p. let i = Ai ! nat (pA + p)
               in (i, binop (Ax ! nat (pA + p)) (Bx ! nat (pB + i - iB_first)))) [0 .. ajnz - 1]"

text \<open>A(:,j) much denser than B(:,j): every entry of B is searched in A.\<close>

function emult_search_A ::
  "('a \<Rightarrow> 'b \<Rightarrow> 'c) \<Rightarrow> int list \<Rightarrow> 'a list \<Rightarrow> int list \<Rightarrow> 'b list \<Rightarrow> int \<Rightarrow> int \<Rightarrow> int \<Rightarrow> int \<Rightarrow>
   (int \<times> 'c) list"
where
  "emult_search_A binop Ai Ax Bi Bx pA pA_end pB pB_end =
     (if pB < pB_end then
        let i = Bi ! nat pB;
            (pA', found) = GB_BINARY_SEARCH i Ai pA (pA_end - 1)
        in if found
           then (i, binop (Ax ! nat pA') (Bx ! nat pB))
                  # emult_search_A binop Ai Ax Bi Bx pA' pA_end (pB + 1) pB_end
           else emult_search_A binop Ai Ax Bi Bx pA' pA_end (pB + 1) pB_end
      else [])"
  by pat_completeness auto
termination
  by (relation "measure (\<lambda>(binop, Ai, Ax, Bi, Bx, pA, pA_end, pB, pB_end). nat (pB_end - pB))")
     auto

text \<open>B(:,j) much denser than A(:,j): every entry of A is searched in B.\<close>

function emult_search_B ::
  "('a \<Rightarrow> 'b \<Rightarrow> 'c) \<Rightarrow> int list \<Rightarrow> 'a list \<Rightarrow> int list \<Rightarrow> 'b list \<Rightarrow> int \<Rightarrow> int \<Rightarrow> int \<Rightarrow> int \<Rightarrow>
   (int \<times> 'c) list"
where
  "emult_search_B binop Ai Ax Bi Bx pA pA_end pB pB_end =
     (if pA < pA_end then
        let i = Ai ! nat pA;
            (pB', found) = GB_BINARY_SEARCH i Bi pB (pB_end - 1)
        in if found
           then (i, binop (Ax ! nat pA) (Bx ! nat pB'))
                  # emult_search_B binop Ai Ax Bi Bx (pA + 1) pA_end pB' pB_end
           else emult_search_B binop Ai Ax Bi Bx (pA + 1) pA_end pB' pB_end
      else [])"
  by pat_completeness auto
termination
  by (relation "measure (\<lambda>(binop, Ai, Ax, Bi, Bx, pA, pA_end, pB, pB_end). nat (pA_end - pA))")
     auto

text \<open>A(:,j) and B(:,j) have about the same number of entries: the linear-time scan.\<close>

function emult_merge ::
  "('a \<Rightarrow> 'b \<Rightarrow> 'c) \<Rightarrow> int list \<Rightarrow> 'a list \<Rightarrow> int list \<Rightarrow> 'b list \<Rightarrow> int \<Rightarrow> int \<Rightarrow> int \<Rightarrow> int \<Rightarrow>
   (int \<times> 'c) list"
where
  "emult_merge binop Ai Ax Bi Bx pA pA_end pB pB_end =
     (if pA < pA_end \<and> pB < pB_end then
        let iA = Ai ! nat pA;
            iB = Bi ! nat pB
        in if iA < iB then emult_merge binop Ai Ax Bi Bx (pA + 1) pA_end pB pB_end
           else if iB < iA then emult_merge binop Ai Ax Bi Bx pA pA_end (pB + 1) pB_end
           else (iB, binop (Ax ! nat pA) (Bx ! nat pB))
                  # emult_merge binop Ai Ax Bi Bx (pA + 1) pA_end (pB + 1) pB_end
      else [])"
  by pat_completeness auto
termination
  by (relation "measure (\<lambda>(binop, Ai, Ax, Bi, Bx, pA, pA_end, pB, pB_end).
        nat (pA_end - pA) + nat (pB_end - pB))") auto

text \<open>
  Modelled from the spec: \<open>GB_mcast\<close> is not among the sources. The spec (4.3): a
  structural mask treats a present entry as true regardless of its value, and a valued mask
  takes the value of the entry. \<open>Mx\<close> is \<open>NULL\<close> (here \<open>None\<close>) for a structural mask. The
  values of the mask are given as booleans, that is after the typecast to \<open>bool\<close>.
\<close>

definition GB_mcast :: "bool list option \<Rightarrow> int \<Rightarrow> bool" where
  "GB_mcast Mx pM = (case Mx of None \<Rightarrow> True | Some X \<Rightarrow> X ! nat pM)"

text \<open>
  The loop over the entries of M(:,j). \<open>pA\<close> and \<open>pB\<close> are the variables of the template:
  a binary search leaves its \<open>pleft\<close> in them, also when the entry is not found.
\<close>

function emult_mask ::
  "('a \<Rightarrow> 'b \<Rightarrow> 'c) \<Rightarrow> int list \<Rightarrow> bool list option \<Rightarrow> int list \<Rightarrow> 'a list \<Rightarrow> int list \<Rightarrow> 'b list \<Rightarrow>
   bool \<Rightarrow> int \<Rightarrow> int \<Rightarrow> int \<Rightarrow> bool \<Rightarrow> int \<Rightarrow> int \<Rightarrow> int \<Rightarrow> int \<Rightarrow> int \<Rightarrow> int \<Rightarrow> int \<Rightarrow>
   (int \<times> 'c) list"
where
  "emult_mask binop Mi Mx Ai Ax Bi Bx adense pA_start iA_first pA_end bdense pB_start iB_first
       pB_end pM pM_end pA pB =
     (if pM < pM_end then
        let i = Mi ! nat pM;
            mij = GB_mcast Mx pM
        in if \<not> mij
           then emult_mask binop Mi Mx Ai Ax Bi Bx adense pA_start iA_first pA_end bdense pB_start
                  iB_first pB_end (pM + 1) pM_end pA pB
           else
             let (pA', afound) =
                   (if adense then (pA_start + i - iA_first, True)
                    else GB_BINARY_SEARCH i Ai pA (pA_end - 1))
             in if \<not> afound
                then emult_mask binop Mi Mx Ai Ax Bi Bx adense pA_start iA_first pA_end bdense
                       pB_start iB_first pB_end (pM + 1) pM_end pA' pB
                else
                  let (pB', bfound) =
                        (if bdense then (pB_start + i - iB_first, True)
                         else GB_BINARY_SEARCH i Bi pB (pB_end - 1))
                  in if \<not> bfound
                     then emult_mask binop Mi Mx Ai Ax Bi Bx adense pA_start iA_first pA_end bdense
                            pB_start iB_first pB_end (pM + 1) pM_end pA' pB'
                     else (i, binop (Ax ! nat pA') (Bx ! nat pB'))
                            # emult_mask binop Mi Mx Ai Ax Bi Bx adense pA_start iA_first pA_end
                                bdense pB_start iB_first pB_end (pM + 1) pM_end pA' pB'
      else [])"
  by pat_completeness auto
termination
  by (relation "measure (\<lambda>(binop, Mi, Mx, Ai, Ax, Bi, Bx, adense, pA_start, iA_first, pA_end,
        bdense, pB_start, iB_first, pB_end, pM, pM_end, pA, pB). nat (pM_end - pM))") auto

text \<open>
  The mask of one vector, when it is applied in the kernel: \<open>Mi\<close>, \<open>Mx\<close> and the positions
  \<open>pM\<close>, \<open>pM_end\<close> of M(:,j).
\<close>

record emult_mask_vector =
  mv_Mi :: "int list"
  mv_Mx :: "bool list option"
  mv_pM :: int
  mv_pM_end :: int

text \<open>
  The chain of cases of the template for one vector, from \<open>if (M == NULL)\<close> on. The positions
  \<open>pA\<close>, \<open>pA_end\<close>, \<open>pB\<close>, \<open>pB_end\<close> delimit A(:,j) and B(:,j) in \<open>Ai\<close>, \<open>Ax\<close>, \<open>Bi\<close>, \<open>Bx\<close>
  (both \<open>-1\<close> for a vector that is not present in a hypersparse matrix). \<open>len\<close> is the
  length \<open>vlen\<close> of the vectors for a coarse task, which owns whole vectors, and
  \<open>TaskList [taskid].len\<close> for a fine task, which owns a slice of one vector: then the
  positions are those of the slice.
\<close>

definition emult_cases ::
  "('a \<Rightarrow> 'b \<Rightarrow> 'c) \<Rightarrow> emult_mask_vector option \<Rightarrow> int list \<Rightarrow> 'a list \<Rightarrow> int list \<Rightarrow> 'b list \<Rightarrow>
   int \<Rightarrow> int \<Rightarrow> int \<Rightarrow> int \<Rightarrow> int \<Rightarrow> (int \<times> 'c) list"
where
  "emult_cases binop M Ai Ax Bi Bx pA pA_end pB pB_end len =
     (let ajnz = pA_end - pA;
          adense = (ajnz = len);
          iA_first = (if ajnz > 0 then Ai ! nat pA else -1);
          bjnz = pB_end - pB;
          bdense = (bjnz = len);
          iB_first = (if bjnz > 0 then Bi ! nat pB else -1)
      in case M of
           None \<Rightarrow>
             if adense \<and> bdense then emult_dense_dense binop Ax Bx pA pB ajnz iA_first
             else if adense then emult_dense_sparse binop Ax Bi Bx pA pB bjnz iA_first
             else if bdense then emult_sparse_dense binop Ai Ax Bx pA pB ajnz iB_first
             else if ajnz > 32 * bjnz then emult_search_A binop Ai Ax Bi Bx pA pA_end pB pB_end
             else if bjnz > 32 * ajnz then emult_search_B binop Ai Ax Bi Bx pA pA_end pB pB_end
             else emult_merge binop Ai Ax Bi Bx pA pA_end pB pB_end
         | Some Mv \<Rightarrow>
             emult_mask binop (mv_Mi Mv) (mv_Mx Mv) Ai Ax Bi Bx adense pA iA_first pA_end
               bdense pB iB_first pB_end (mv_pM Mv) (mv_pM_end Mv) pA pB)"

text \<open>
  Phase 1 counts the entries of C(:,j). Two tests come first, in phase 1 only: an empty
  A(:,j) or B(:,j), and index ranges that do not meet. The dense cases set the count
  without a loop; every other case increments it where phase 2 writes an entry.
\<close>

definition emult_phase1 ::
  "('a \<Rightarrow> 'b \<Rightarrow> 'c) \<Rightarrow> emult_mask_vector option \<Rightarrow> int list \<Rightarrow> 'a list \<Rightarrow> int list \<Rightarrow> 'b list \<Rightarrow>
   int \<Rightarrow> int \<Rightarrow> int \<Rightarrow> int \<Rightarrow> int \<Rightarrow> int"
where
  "emult_phase1 binop M Ai Ax Bi Bx pA pA_end pB pB_end len =
     (let ajnz = pA_end - pA;
          adense = (ajnz = len);
          iA_first = (if ajnz > 0 then Ai ! nat pA else -1);
          iA_last = (if ajnz > 0 then Ai ! nat (pA_end - 1) else -1);
          bjnz = pB_end - pB;
          bdense = (bjnz = len);
          iB_first = (if bjnz > 0 then Bi ! nat pB else -1);
          iB_last = (if bjnz > 0 then Bi ! nat (pB_end - 1) else -1)
      in if ajnz = 0 \<or> bjnz = 0 then 0
         else if iA_last < iB_first \<or> iB_last < iA_first then 0
         else case M of
                None \<Rightarrow>
                  if adense \<and> bdense then ajnz
                  else if adense then bjnz
                  else if bdense then ajnz
                  else int (length (emult_cases binop M Ai Ax Bi Bx pA pA_end pB pB_end len))
              | Some Mv \<Rightarrow>
                  int (length (emult_cases binop M Ai Ax Bi Bx pA pA_end pB pB_end len)))"

text \<open>
  Phase 2 gets the count of phase 1 as the size \<open>pC_end - pC\<close> of its slice of \<open>Ci\<close> and
  \<open>Cx\<close>, skips the vector when it is zero, and otherwise runs the cases.
\<close>

definition emult_phase2 ::
  "('a \<Rightarrow> 'b \<Rightarrow> 'c) \<Rightarrow> emult_mask_vector option \<Rightarrow> int list \<Rightarrow> 'a list \<Rightarrow> int list \<Rightarrow> 'b list \<Rightarrow>
   int \<Rightarrow> int \<Rightarrow> int \<Rightarrow> int \<Rightarrow> int \<Rightarrow> int \<Rightarrow> (int \<times> 'c) list"
where
  "emult_phase2 binop M Ai Ax Bi Bx pA pA_end pB pB_end len cjnz =
     (if cjnz = 0 then []
      else emult_cases binop M Ai Ax Bi Bx pA pA_end pB pB_end len)"

definition GB_emult_vector ::
  "('a \<Rightarrow> 'b \<Rightarrow> 'c) \<Rightarrow> emult_mask_vector option \<Rightarrow> int list \<Rightarrow> 'a list \<Rightarrow> int list \<Rightarrow> 'b list \<Rightarrow>
   int \<Rightarrow> int \<Rightarrow> int \<Rightarrow> int \<Rightarrow> int \<Rightarrow> (int \<times> 'c) list"
where
  "GB_emult_vector binop M Ai Ax Bi Bx pA pA_end pB pB_end len =
     emult_phase2 binop M Ai Ax Bi Bx pA pA_end pB pB_end len
       (emult_phase1 binop M Ai Ax Bi Bx pA pA_end pB pB_end len)"

text \<open>
  The entries of a vector stored at the positions \<open>lo..hi-1\<close>, and the invariants of the
  spec (section 3) for a vector that is not jumbled: the positions lie in the arrays, the
  inner indices increase strictly and lie in the window \<open>[ifirst, ifirst + len)\<close> of the task.
  For a coarse task the window is the whole vector, \<open>ifirst = 0\<close> and \<open>len = vlen\<close>; a fine
  task cuts A(:,j), B(:,j) and M(:,j) to the same \<open>len\<close> consecutive row indices (the tasks
  are made by \<open>GB_ewise_slice\<close>, which is not among the sources).
\<close>

definition vec_entries :: "int list \<Rightarrow> 'a list \<Rightarrow> int \<Rightarrow> int \<Rightarrow> (int \<times> 'a) set" where
  "vec_entries Xi Xx lo hi = (\<lambda>p. (Xi ! nat p, Xx ! nat p)) ` {lo ..< hi}"

definition increasing_on :: "int list \<Rightarrow> int \<Rightarrow> int \<Rightarrow> bool" where
  "increasing_on Xi lo hi =
     (\<forall>p \<in> {lo ..< hi}. \<forall>q \<in> {lo ..< hi}. p < q \<longrightarrow> Xi ! nat p < Xi ! nat q)"

definition vector_ok :: "int list \<Rightarrow> nat \<Rightarrow> int \<Rightarrow> int \<Rightarrow> int \<Rightarrow> int \<Rightarrow> bool" where
  "vector_ok Xi nx lo hi ifirst len =
     (((lo = -1 \<and> hi = -1) \<or> (0 \<le> lo \<and> lo \<le> hi)) \<and>
      hi \<le> int (length Xi) \<and> hi \<le> int nx \<and>
      (\<forall>p \<in> {lo ..< hi}. ifirst \<le> Xi ! nat p \<and> Xi ! nat p < ifirst + len) \<and>
      increasing_on Xi lo hi)"

text \<open>The inner indices at which the mask of a vector is true.\<close>

definition mask_true_at :: "emult_mask_vector option \<Rightarrow> int \<Rightarrow> bool" where
  "mask_true_at M i =
     (case M of
        None \<Rightarrow> True
      | Some Mv \<Rightarrow> (\<exists>p \<in> {mv_pM Mv ..< mv_pM_end Mv}.
                      mv_Mi Mv ! nat p = i \<and> GB_mcast (mv_Mx Mv) p))"

definition mask_ok :: "emult_mask_vector option \<Rightarrow> int \<Rightarrow> int \<Rightarrow> bool" where
  "mask_ok M ifirst len =
     (case M of
        None \<Rightarrow> True
      | Some Mv \<Rightarrow>
          vector_ok (mv_Mi Mv)
            (case mv_Mx Mv of None \<Rightarrow> length (mv_Mi Mv) | Some X \<Rightarrow> length X)
            (mv_pM Mv) (mv_pM_end Mv) ifirst len)"

text \<open>
  Set-intersection semantics, in the words of the spec: an entry at \<open>i\<close> exactly where both
  A(i,j) and B(i,j) are present and the mask, if there is one, is true, with the value
  \<open>binop\<close> of the two.
\<close>

definition emult_intersection ::
  "('a \<Rightarrow> 'b \<Rightarrow> 'c) \<Rightarrow> (int \<Rightarrow> bool) \<Rightarrow> (int \<times> 'a) set \<Rightarrow> (int \<times> 'b) set \<Rightarrow> (int \<times> 'c) set"
where
  "emult_intersection binop m A B =
     {(i, binop a b) | i a b. (i, a) \<in> A \<and> (i, b) \<in> B \<and> m i}"

section \<open>Theorems: GB_AxB_semiring_builtin\<close>

lemma semiring_builtin_outputs:
  assumes "GB_AxB_semiring_builtin A_type A_is_pattern B_type B_is_pattern semiring flipxy = Some r"
  shows "add_opcode r =
          (if code (ztype (multiply semiring)) = GB_BOOL_code
           then GB_boolean_rename (opcode (op (add semiring)))
           else opcode (op (add semiring)))"
    and "mult_opcode r =
          (let m1 = (if code (xtype (multiply semiring)) = GB_BOOL_code
                     then GB_boolean_rename (opcode (multiply semiring))
                     else opcode (multiply semiring))
           in if flipxy then flipxy_switch m1 else m1)"
  using assms
  by (auto simp: GB_AxB_semiring_builtin_def Let_def split: if_splits)

lemma flipxy_switch_fixed:
  "flipxy_switch opc = opc \<longleftrightarrow>
     opc \<notin> {GB_FIRST_opcode, GB_SECOND_opcode, GB_LT_opcode, GB_GT_opcode, GB_LE_opcode,
            GB_GE_opcode, GB_ISLT_opcode, GB_ISGT_opcode, GB_ISLE_opcode, GB_ISGE_opcode,
            GB_DIV_opcode, GB_RDIV_opcode, GB_MINUS_opcode, GB_RMINUS_opcode}"
  by (cases opc) simp_all

text \<open>
  Claim C3 (boolean opcode renaming). For every semiring that \<open>GB_AxB_semiring_builtin\<close>
  accepts: when the type of the multiplier's \<open>x\<close> input is boolean, the multiply opcode it
  returns is the boolean renaming of the semiring's multiply opcode, to which the \<open>flipxy\<close>
  rewrite is applied afterwards when \<open>flipxy\<close> is set (so without \<open>flipxy\<close> it is the renaming
  itself); when the type of the monoid's output is boolean, the add opcode it returns is the
  boolean renaming of the monoid's opcode. The renaming maps DIV to FIRST, RDIV to SECOND,
  MIN and TIMES to LAND, MAX and PLUS to LOR, NE, ISNE, RMINUS and MINUS to LXOR, ISEQ to
  EQ, ISGT to GT, ISLT to LT, ISGE to GE and ISLE to LE.
\<close>

theorem boolean_rename_in_semiring_builtin:
  assumes "GB_AxB_semiring_builtin A_type A_is_pattern B_type B_is_pattern semiring flipxy = Some r"
  shows "(code (xtype (multiply semiring)) = GB_BOOL_code \<longrightarrow>
            mult_opcode r =
              (if flipxy then flipxy_switch (GB_boolean_rename (opcode (multiply semiring)))
               else GB_boolean_rename (opcode (multiply semiring)))) \<and>
         (code (ztype (multiply semiring)) = GB_BOOL_code \<longrightarrow>
            add_opcode r = GB_boolean_rename (opcode (op (add semiring)))) \<and>
         GB_boolean_rename GB_DIV_opcode = GB_FIRST_opcode \<and>
         GB_boolean_rename GB_RDIV_opcode = GB_SECOND_opcode \<and>
         GB_boolean_rename GB_MIN_opcode = GB_LAND_opcode \<and>
         GB_boolean_rename GB_TIMES_opcode = GB_LAND_opcode \<and>
         GB_boolean_rename GB_MAX_opcode = GB_LOR_opcode \<and>
         GB_boolean_rename GB_PLUS_opcode = GB_LOR_opcode \<and>
         GB_boolean_rename GB_NE_opcode = GB_LXOR_opcode \<and>
         GB_boolean_rename GB_ISNE_opcode = GB_LXOR_opcode \<and>
         GB_boolean_rename GB_RMINUS_opcode = GB_LXOR_opcode \<and>
         GB_boolean_rename GB_MINUS_opcode = GB_LXOR_opcode \<and>
         GB_boolean_rename GB_ISEQ_opcode = GB_EQ_opcode \<and>
         GB_boolean_rename GB_ISGT_opcode = GB_GT_opcode \<and>
         GB_boolean_rename GB_ISLT_opcode = GB_LT_opcode \<and>
         GB_boolean_rename GB_ISGE_opcode = GB_GE_opcode \<and>
         GB_boolean_rename GB_ISLE_opcode = GB_LE_opcode"
  using semiring_builtin_outputs[OF assms] by (simp add: Let_def)

text \<open>
  The semiring PLUS_DIV over booleans, both matrices boolean and read by value: without
  \<open>flipxy\<close> the function returns LOR and FIRST.
\<close>

theorem boolean_rename_in_semiring_builtin_witness:
  "GB_AxB_semiring_builtin GrB_BOOL False GrB_BOOL False
       (bool_semiring GB_PLUS_opcode GB_DIV_opcode) False
     = Some \<lparr> mult_opcode = GB_FIRST_opcode, add_opcode = GB_LOR_opcode,
               xycode = GB_BOOL_code, zcode = GB_BOOL_code \<rparr>"
proof -
  let ?s = "bool_semiring GB_PLUS_opcode GB_DIV_opcode"
  obtain r where r: "GB_AxB_semiring_builtin GrB_BOOL False GrB_BOOL False ?s False = Some r"
    by (simp add: GB_AxB_semiring_builtin_def bool_semiring_def bool_binop_def GrB_BOOL_def)
  have "mult_opcode r = GB_FIRST_opcode \<and> add_opcode r = GB_LOR_opcode"
    using boolean_rename_in_semiring_builtin[OF r]
    by (simp add: bool_semiring_def bool_binop_def GrB_BOOL_def)
  moreover have "xycode r = GB_BOOL_code \<and> zcode r = GB_BOOL_code"
    using r by (auto simp: GB_AxB_semiring_builtin_def bool_semiring_def bool_binop_def
        GrB_BOOL_def Let_def split: if_splits)
  ultimately show ?thesis using r by simp
qed

text \<open>
  Claim C4 (the \<open>flipxy\<close> rewrite). For every semiring that \<open>GB_AxB_semiring_builtin\<close>
  accepts with \<open>flipxy\<close> set, the multiply opcode it returns is the opcode (after the boolean
  renaming, when the multiplier's input type is boolean) with FIRST and SECOND, LT and GT,
  LE and GE, ISLT and ISGT, ISLE and ISGE, DIV and RDIV, MINUS and RMINUS swapped: the
  rewrite exchanges the two members of each of these pairs and returns every other opcode
  unchanged. The kernel is then called with \<open>A\<close> and \<open>B\<close> in their places.
\<close>

theorem flipxy_rewrites_opcode:
  assumes "GB_AxB_semiring_builtin A_type A_is_pattern B_type B_is_pattern semiring True = Some r"
  shows "mult_opcode r =
           flipxy_switch (if code (xtype (multiply semiring)) = GB_BOOL_code
                          then GB_boolean_rename (opcode (multiply semiring))
                          else opcode (multiply semiring)) \<and>
         flipxy_switch GB_FIRST_opcode = GB_SECOND_opcode \<and>
         flipxy_switch GB_SECOND_opcode = GB_FIRST_opcode \<and>
         flipxy_switch GB_LT_opcode = GB_GT_opcode \<and>
         flipxy_switch GB_GT_opcode = GB_LT_opcode \<and>
         flipxy_switch GB_LE_opcode = GB_GE_opcode \<and>
         flipxy_switch GB_GE_opcode = GB_LE_opcode \<and>
         flipxy_switch GB_ISLT_opcode = GB_ISGT_opcode \<and>
         flipxy_switch GB_ISGT_opcode = GB_ISLT_opcode \<and>
         flipxy_switch GB_ISLE_opcode = GB_ISGE_opcode \<and>
         flipxy_switch GB_ISGE_opcode = GB_ISLE_opcode \<and>
         flipxy_switch GB_DIV_opcode = GB_RDIV_opcode \<and>
         flipxy_switch GB_RDIV_opcode = GB_DIV_opcode \<and>
         flipxy_switch GB_MINUS_opcode = GB_RMINUS_opcode \<and>
         flipxy_switch GB_RMINUS_opcode = GB_MINUS_opcode \<and>
         (\<forall>opc. opc \<notin> {GB_FIRST_opcode, GB_SECOND_opcode, GB_LT_opcode, GB_GT_opcode,
                       GB_LE_opcode, GB_GE_opcode, GB_ISLT_opcode, GB_ISGT_opcode,
                       GB_ISLE_opcode, GB_ISGE_opcode, GB_DIV_opcode, GB_RDIV_opcode,
                       GB_MINUS_opcode, GB_RMINUS_opcode}
                 \<longrightarrow> flipxy_switch opc = opc)"
  using semiring_builtin_outputs(2)[OF assms] flipxy_switch_fixed
  by (simp add: Let_def)

text \<open>
  The semiring PLUS_MINUS over 8-bit integers with \<open>flipxy\<close>: the function returns RMINUS,
  and PLUS stays as it is.
\<close>

theorem flipxy_rewrites_opcode_witness:
  "GB_AxB_semiring_builtin GrB_INT8 False GrB_INT8 False
       (int8_semiring GB_PLUS_opcode GB_MINUS_opcode) True
     = Some \<lparr> mult_opcode = GB_RMINUS_opcode, add_opcode = GB_PLUS_opcode,
               xycode = GB_INT8_code, zcode = GB_INT8_code \<rparr>"
proof -
  let ?s = "int8_semiring GB_PLUS_opcode GB_MINUS_opcode"
  obtain r where r: "GB_AxB_semiring_builtin GrB_INT8 False GrB_INT8 False ?s True = Some r"
    by (simp add: GB_AxB_semiring_builtin_def int8_semiring_def int8_binop_def GrB_INT8_def)
  have "mult_opcode r = GB_RMINUS_opcode"
    using flipxy_rewrites_opcode[OF r]
    by (simp add: int8_semiring_def int8_binop_def GrB_INT8_def)
  moreover have "add_opcode r = GB_PLUS_opcode \<and> xycode r = GB_INT8_code \<and> zcode r = GB_INT8_code"
    using r by (auto simp: GB_AxB_semiring_builtin_def int8_semiring_def int8_binop_def
        GrB_INT8_def Let_def split: if_splits)
  ultimately show ?thesis using r by simp
qed

section \<open>Theorems: the dot product\<close>

lemma dot_cij_simps [simp]:
  "dot_cij K [] bs cij = cij"
  "dot_cij K (a0 # as) [] cij = cij"
  "dot_cij K ((ia, a) # as) ((ib, b) # bs) cij =
     (if ia < ib then dot_cij K as ((ib, b) # bs) cij
      else if ib < ia then dot_cij K ((ia, a) # as) bs cij
      else
        let aki = GB_GETA K a;
            bkj = GB_GETB K b;
            t = GB_DOT_MULT K aki bkj;
            cij' = (case cij of None \<Rightarrow> t | Some c \<Rightarrow> fadd K c t)
        in if GB_DOT_TERMINAL K cij' then Some cij'
           else dot_cij K as bs (Some cij'))"
  by (simp_all add: dot_cij_def Let_def split: prod.splits)

lemma foldl_absorbing:
  assumes "\<And>v. f T v = T"
  shows "foldl f T ts = T"
  using assms by (induction ts) simp_all

lemma dot_cij_is_full_reduction:
  assumes "\<And>T v. dot_terminal K = Some T \<Longrightarrow> fadd K T v = T"
  shows "dot_cij K as bs cij =
           (case cij of
              None \<Rightarrow> reduce_all (fadd K) (dot_products K as bs)
            | Some c \<Rightarrow> Some (foldl (fadd K) c (dot_products K as bs)))"
  using assms
proof (induction K as bs cij rule: dot_loop.induct)
  case (1 K bs cij)
  then show ?case by (simp split: option.splits)
next
  case (2 K a as cij)
  then show ?case by (simp split: option.splits)
next
  case (3 K ia a as ib b bs cij)
  show ?case
  proof (cases "ia = ib")
    case False
    then show ?thesis using 3 by (auto split: option.splits)
  next
    case True
    let ?t = "GB_DOT_MULT K (GB_GETA K a) (GB_GETB K b)"
    let ?c = "(case cij of None \<Rightarrow> ?t | Some c \<Rightarrow> fadd K c ?t)"
    show ?thesis
    proof (cases "GB_DOT_TERMINAL K ?c")
      case stop: True
      then have T: "dot_terminal K = Some ?c"
        by (auto simp: GB_DOT_TERMINAL_def split: option.splits)
      have "\<And>v. fadd K ?c v = ?c"
        using "3.prems" T by blast
      then have "foldl (fadd K) ?c (dot_products K as bs) = ?c"
        by (rule foldl_absorbing)
      then show ?thesis using True stop
        by (simp add: Let_def split: option.splits)
    next
      case go: False
      have "dot_cij K as bs (Some ?c) = Some (foldl (fadd K) ?c (dot_products K as bs))"
        using "3.IH"(3)[OF _ _ refl refl refl refl go] True "3.prems" by simp
      then show ?thesis using True go
        by (simp add: Let_def split: option.splits)
    qed
  qed
qed

lemma dot_loop_count:
  assumes "dot_terminal K = Some T"
  shows "snd (dot_loop K as bs cij) =
           products_until_terminal T
             (case cij of
                None \<Rightarrow> cell_values (fadd K) (dot_products K as bs)
              | Some c \<Rightarrow> running_reductions (fadd K) c (dot_products K as bs))"
  using assms
proof (induction K as bs cij rule: dot_loop.induct)
  case (1 K bs cij)
  then show ?case
    by (simp add: products_until_terminal_def cell_values_def split: option.splits)
next
  case (2 K a as cij)
  then show ?case
    by (simp add: products_until_terminal_def cell_values_def split: option.splits)
next
  case (3 K ia a as ib b bs cij)
  show ?case
  proof (cases "ia = ib")
    case False
    then show ?thesis using 3 by (auto split: option.splits)
  next
    case True
    let ?t = "GB_DOT_MULT K (GB_GETA K a) (GB_GETB K b)"
    let ?c = "(case cij of None \<Rightarrow> ?t | Some c \<Rightarrow> fadd K c ?t)"
    let ?rest = "running_reductions (fadd K) ?c (dot_products K as bs)"
    have cells: "(case cij of
                None \<Rightarrow> cell_values (fadd K) (dot_products K ((ia, a) # as) ((ib, b) # bs))
              | Some c \<Rightarrow> running_reductions (fadd K) c
                           (dot_products K ((ia, a) # as) ((ib, b) # bs))) = ?c # ?rest"
      using True by (simp add: cell_values_def split: option.splits)
    show ?thesis
    proof (cases "GB_DOT_TERMINAL K ?c")
      case stop: True
      then have "?c = T"
        using "3.prems" by (simp add: GB_DOT_TERMINAL_def)
      then have "products_until_terminal T (?c # ?rest) = 1"
        by (simp add: products_until_terminal_def)
      moreover have "snd (dot_loop K ((ia, a) # as) ((ib, b) # bs) cij) = 1"
        using True stop by (simp add: Let_def)
      ultimately show ?thesis unfolding cells by simp
    next
      case go: False
      then have "?c \<noteq> T"
        using "3.prems" by (simp add: GB_DOT_TERMINAL_def)
      then have "products_until_terminal T (?c # ?rest) = Suc (products_until_terminal T ?rest)"
        by (simp add: products_until_terminal_def)
      moreover have "snd (dot_loop K as bs (Some ?c)) = products_until_terminal T ?rest"
        using "3.IH"(3)[OF _ _ refl refl refl refl go "3.prems"] True by simp
      moreover have "snd (dot_loop K ((ia, a) # as) ((ib, b) # bs) cij) =
          Suc (snd (dot_loop K as bs (Some ?c)))"
        using True go by (simp add: Let_def split: prod.splits)
      ultimately show ?thesis unfolding cells by simp
    qed
  qed
qed

lemma early_exit_value:
  assumes "dot_terminal K = Some T"
  shows "snd (dot_loop K as bs cij) < length (dot_products K as bs) \<Longrightarrow>
         fst (dot_loop K as bs cij) = Some T"
  using assms
proof (induction K as bs cij rule: dot_loop.induct)
  case (1 K bs cij)
  then show ?case by simp
next
  case (2 K a as cij)
  then show ?case by simp
next
  case (3 K ia a as ib b bs cij)
  show ?case
  proof (cases "ia = ib")
    case False
    then show ?thesis using 3 by (auto split: if_splits)
  next
    case True
    let ?t = "GB_DOT_MULT K (GB_GETA K a) (GB_GETB K b)"
    let ?c = "(case cij of None \<Rightarrow> ?t | Some c \<Rightarrow> fadd K c ?t)"
    show ?thesis
    proof (cases "GB_DOT_TERMINAL K ?c")
      case stop: True
      then have "?c = T"
        using "3.prems" by (simp add: GB_DOT_TERMINAL_def)
      then show ?thesis using True stop by (simp add: Let_def)
    next
      case go: False
      have n: "snd (dot_loop K ((ia, a) # as) ((ib, b) # bs) cij) =
          Suc (snd (dot_loop K as bs (Some ?c)))"
        and v: "fst (dot_loop K ((ia, a) # as) ((ib, b) # bs) cij) =
          fst (dot_loop K as bs (Some ?c))"
        using True go by (simp_all add: Let_def split: prod.splits)
      have "snd (dot_loop K as bs (Some ?c)) < length (dot_products K as bs)"
        using "3.prems"(1) n True by simp
      then have "fst (dot_loop K as bs (Some ?c)) = Some T"
        using "3.IH"(3)[OF _ _ refl refl refl refl go _ "3.prems"(2)] True by simp
      then show ?thesis using v by simp
    qed
  qed
qed

text \<open>
  Claim C5 (terminal short-circuit). For a monoid with a terminal value \<open>T\<close> such that
  \<open>fadd T v = T\<close> for every \<open>v\<close>, the loop of the dot product is left as soon as \<open>cij\<close> equals
  \<open>T\<close>: the number of products it computes is the number of products up to and including
  the first one at which the cell equals \<open>T\<close>, and all of them only if the cell never does;
  when products are left over, \<open>cij\<close> is \<open>T\<close>. The value stored is nevertheless that of the
  reduction of all the products: the entry \<open>C(i,j)\<close> is the full reduction over every \<open>k\<close>
  present in both vectors, and is absent when there is none.
\<close>

theorem dot_terminal_short_circuit:
  assumes "dot_terminal K = Some T" and "\<And>v. fadd K T v = T"
  shows "snd (dot_loop K as bs None) =
           products_until_terminal T (cell_values (fadd K) (dot_products K as bs)) \<and>
         (snd (dot_loop K as bs None) < length (dot_products K as bs) \<longrightarrow>
            dot_cij K as bs None = Some T) \<and>
         dot_cij K as bs None = reduce_all (fadd K) (dot_products K as bs)"
proof -
  have "\<And>T' v. dot_terminal K = Some T' \<Longrightarrow> fadd K T' v = T'"
    using assms by simp
  from dot_cij_is_full_reduction[OF this, of as bs None]
  have full: "dot_cij K as bs None = reduce_all (fadd K) (dot_products K as bs)" by simp
  have count: "snd (dot_loop K as bs None) =
           products_until_terminal T (cell_values (fadd K) (dot_products K as bs))"
    using dot_loop_count[OF assms(1), of as bs None] by simp
  have early: "snd (dot_loop K as bs None) < length (dot_products K as bs) \<longrightarrow>
            dot_cij K as bs None = Some T"
    using early_exit_value[OF assms(1), of as bs None] by (simp add: dot_cij_def)
  from count early full show ?thesis by blast
qed

text \<open>
  MAX_TIMES with terminal 100 on \<open>A(:,i) = {0: 2, 1: 50, 3: 7}\<close> and
  \<open>B(:,j) = {0: 3, 1: 2, 3: 9}\<close>: the loop is left at \<open>k = 1\<close> with 100, after two of the three
  products, and 100 is also the maximum of the three products capped at 100.
\<close>

theorem dot_terminal_short_circuit_witness:
  "dot_loop max_times_kernel [(0, 2), (1, 50), (3, 7)] [(0, 3), (1, 2), (3, 9)] None =
     (Some 100, 2) \<and>
   dot_products max_times_kernel [(0, 2), (1, 50), (3, 7)] [(0, 3), (1, 2), (3, 9)] =
     [6, 100, 63] \<and>
   products_until_terminal 100 (cell_values (fadd max_times_kernel) [6, 100, 63]) = 2 \<and>
   reduce_all (fadd max_times_kernel) [6, 100, 63] = Some 100"
proof -
  have T: "dot_terminal max_times_kernel = Some 100"
    by (simp add: max_times_kernel_def)
  have absorb: "\<And>v. fadd max_times_kernel 100 v = 100"
    by (simp add: max_times_kernel_def)
  have loop: "dot_loop max_times_kernel [(0, 2), (1, 50), (3, 7)] [(0, 3), (1, 2), (3, 9)] None =
      (Some 100, 2)"
    by (simp add: max_times_kernel_def GB_GETA_def GB_GETB_def GB_DOT_MULT_def
        GB_DOT_TERMINAL_def)
  have products: "dot_products max_times_kernel [(0, 2), (1, 50), (3, 7)]
      [(0, 3), (1, 2), (3, 9)] = [6, 100, 63]"
    by (simp add: max_times_kernel_def GB_GETA_def GB_GETB_def GB_DOT_MULT_def)
  show ?thesis
    using dot_terminal_short_circuit[OF T absorb, of "[(0, 2), (1, 50), (3, 7)]"
        "[(0, 3), (1, 2), (3, 9)]"] loop products
    by (simp add: dot_cij_def)
qed

section \<open>Theorems: pattern-only operands of the dot product\<close>

lemma dot_cij_B_pattern:
  assumes "is_pattern_B K" and "map fst bs = map fst bs'"
  shows "dot_cij K as bs cij = dot_cij K as bs' cij"
  using assms
proof (induction K as bs cij arbitrary: bs' rule: dot_loop.induct)
  case (1 K bs cij)
  then show ?case by simp
next
  case (2 K a as cij)
  then show ?case by simp
next
  case (3 K ia a as ib b bs cij)
  from "3.prems"(2) obtain b' bs0 where bs': "bs' = (ib, b') # bs0" and rest: "map fst bs = map fst bs0"
    by (cases bs') auto
  have getb: "GB_GETB K b = GB_GETB K b'"
    using "3.prems"(1) by (simp add: GB_GETB_def)
  show ?case
  proof (cases "ia < ib")
    case True
    then show ?thesis
      using "3.IH"(1)[OF True "3.prems"(1), of bs'] "3.prems"(2) bs' by simp
  next
    case nlt: False
    show ?thesis
    proof (cases "ib < ia")
      case True
      then show ?thesis
        using "3.IH"(2)[OF nlt True "3.prems"(1) rest] nlt bs' by simp
    next
      case False
      let ?c = "(case cij of None \<Rightarrow> GB_DOT_MULT K (GB_GETA K a) (GB_GETB K b)
                 | Some c \<Rightarrow> fadd K c (GB_DOT_MULT K (GB_GETA K a) (GB_GETB K b)))"
      show ?thesis
      proof (cases "GB_DOT_TERMINAL K ?c")
        case True
        then show ?thesis using nlt False bs' by (simp add: Let_def getb split: option.splits)
      next
        case go: False
        have "dot_cij K as bs (Some ?c) = dot_cij K as bs0 (Some ?c)"
          using "3.IH"(3)[OF nlt False refl refl refl refl go "3.prems"(1) rest] .
        then show ?thesis using nlt False bs' go by (simp add: Let_def getb split: option.splits)
      qed
    qed
  qed
qed

lemma dot_cij_A_pattern:
  assumes "is_pattern_A K" and "map fst as = map fst as'"
  shows "dot_cij K as bs cij = dot_cij K as' bs cij"
  using assms
proof (induction K as bs cij arbitrary: as' rule: dot_loop.induct)
  case (1 K bs cij)
  then show ?case by simp
next
  case (2 K a as cij)
  then obtain a' as0 where "as' = a' # as0" by (cases as') auto
  then show ?case by simp
next
  case (3 K ia a as ib b bs cij)
  from "3.prems"(2) obtain a' as0 where as': "as' = (ia, a') # as0" and rest: "map fst as = map fst as0"
    by (cases as') auto
  have geta: "GB_GETA K a = GB_GETA K a'"
    using "3.prems"(1) by (simp add: GB_GETA_def)
  show ?case
  proof (cases "ia < ib")
    case True
    then show ?thesis
      using "3.IH"(1)[OF True "3.prems"(1) rest] as' by simp
  next
    case nlt: False
    show ?thesis
    proof (cases "ib < ia")
      case True
      then show ?thesis
        using "3.IH"(2)[OF nlt True "3.prems"(1), of as'] "3.prems"(2) nlt as' by simp
    next
      case False
      let ?c = "(case cij of None \<Rightarrow> GB_DOT_MULT K (GB_GETA K a) (GB_GETB K b)
                 | Some c \<Rightarrow> fadd K c (GB_DOT_MULT K (GB_GETA K a) (GB_GETB K b)))"
      show ?thesis
      proof (cases "GB_DOT_TERMINAL K ?c")
        case True
        then show ?thesis using nlt False as' by (simp add: Let_def geta split: option.splits)
      next
        case go: False
        have "dot_cij K as bs (Some ?c) = dot_cij K as0 bs (Some ?c)"
          using "3.IH"(3)[OF nlt False refl refl refl refl go "3.prems"(1) rest] .
        then show ?thesis using nlt False as' go by (simp add: Let_def geta split: option.splits)
      qed
    qed
  qed
qed

lemma dot_cij_constant_mult:
  assumes "\<And>x y. fmult K x y = one"
    and "map fst as = map fst as'" and "map fst bs = map fst bs'"
  shows "dot_cij K as bs cij = dot_cij K as' bs' cij"
  using assms
proof (induction K as bs cij arbitrary: as' bs' rule: dot_loop.induct)
  case (1 K bs cij)
  then show ?case by simp
next
  case (2 K a as cij)
  then obtain a' as0 where "as' = a' # as0" by (cases as') auto
  then show ?case using 2 by simp
next
  case (3 K ia a as ib b bs cij)
  from "3.prems"(2) obtain a' as0 where as': "as' = (ia, a') # as0"
    and resta: "map fst as = map fst as0"
    by (cases as') auto
  from "3.prems"(3) obtain b' bs0 where bs': "bs' = (ib, b') # bs0"
    and restb: "map fst bs = map fst bs0"
    by (cases bs') auto
  have m: "\<And>u v. GB_DOT_MULT K u v = one"
    using "3.prems"(1) by (simp add: GB_DOT_MULT_def)
  show ?case
  proof (cases "ia < ib")
    case True
    then show ?thesis
      using "3.IH"(1)[OF True "3.prems"(1) resta, of bs'] "3.prems"(3) as' bs' by simp
  next
    case nlt: False
    show ?thesis
    proof (cases "ib < ia")
      case True
      then show ?thesis
        using "3.IH"(2)[OF nlt True "3.prems"(1) _ restb, of as'] "3.prems"(2) nlt as' bs'
        by simp
    next
      case False
      let ?c = "(case cij of None \<Rightarrow> one | Some c \<Rightarrow> fadd K c one)"
      show ?thesis
      proof (cases "GB_DOT_TERMINAL K ?c")
        case True
        then show ?thesis using nlt False as' bs' by (simp add: Let_def m split: option.splits)
      next
        case go: False
        have go': "\<not> GB_DOT_TERMINAL K
            (case cij of None \<Rightarrow> GB_DOT_MULT K (GB_GETA K a) (GB_GETB K b)
             | Some c \<Rightarrow> fadd K c (GB_DOT_MULT K (GB_GETA K a) (GB_GETB K b)))"
          using go by (simp add: m split: option.splits)
        have "dot_cij K as bs (Some ?c) = dot_cij K as0 bs0 (Some ?c)"
          using "3.IH"(3)[OF nlt False refl refl refl refl go' "3.prems"(1) resta restb]
          by (simp add: m split: option.splits)
        then show ?thesis using nlt False as' bs' go by (simp add: Let_def m split: option.splits)
      qed
    qed
  qed
qed

lemma dot_flags_cases:
  "dot_pattern_flags GB_FIRST_opcode False = (False, True)"
  "dot_pattern_flags GB_SECOND_opcode False = (True, False)"
  "dot_pattern_flags GB_FIRST_opcode True = (True, False)"
  "dot_pattern_flags GB_SECOND_opcode True = (False, True)"
  "dot_pattern_flags GB_PAIR_opcode flipxy = (False, False)"
  by (simp_all add: dot_pattern_flags_def)

text \<open>
  Claim C6 (pattern-only operands), as amended. In the generic dot-product kernel of
  \<open>GB_AxB_dot\<close>, the operand bound to the input that the multiplier ignores is read as a
  pattern: for FIRST without \<open>flipxy\<close> and for SECOND with \<open>flipxy\<close> it is \<open>B\<close>, for
  SECOND without \<open>flipxy\<close> and for FIRST with \<open>flipxy\<close> it is \<open>A\<close>. The values of that
  operand are never fetched, so two runs that differ only in them compute the same
  \<open>C(i,j)\<close>. PAIR sets neither flag in \<open>GB_AxB_dot\<close>: both values are fetched, and the result
  is the same for all values of both operands because the multiplier is constant.
\<close>

theorem dot_pattern_noninterference:
  assumes "map fst as = map fst as'" and "map fst bs = map fst bs'"
  shows "let K = GB_AxB_dot_generic mult_opc flipxy fmult_f fadd_f term cA cB aki bkj in
    ((mult_opc = GB_FIRST_opcode \<and> \<not> flipxy \<or> mult_opc = GB_SECOND_opcode \<and> flipxy) \<longrightarrow>
        is_pattern_B K \<and> \<not> is_pattern_A K \<and> dot_cij K as bs cij = dot_cij K as bs' cij) \<and>
    ((mult_opc = GB_SECOND_opcode \<and> \<not> flipxy \<or> mult_opc = GB_FIRST_opcode \<and> flipxy) \<longrightarrow>
        is_pattern_A K \<and> \<not> is_pattern_B K \<and> dot_cij K as bs cij = dot_cij K as' bs cij) \<and>
    (mult_opc = GB_PAIR_opcode \<longrightarrow>
        \<not> is_pattern_A K \<and> \<not> is_pattern_B K \<and>
        ((\<forall>x y. fmult_f x y = one) \<longrightarrow> dot_cij K as bs cij = dot_cij K as' bs' cij))"
proof -
  define K where "K = GB_AxB_dot_generic mult_opc flipxy fmult_f fadd_f term cA cB aki bkj"
  have flags: "is_pattern_A K = fst (dot_pattern_flags mult_opc flipxy)"
    "is_pattern_B K = snd (dot_pattern_flags mult_opc flipxy)"
    and fm: "fmult K = fmult_f"
    by (simp_all add: K_def GB_AxB_dot_generic_def)
  have B: "is_pattern_B K \<Longrightarrow> dot_cij K as bs cij = dot_cij K as bs' cij"
    using dot_cij_B_pattern[OF _ assms(2)] by blast
  have A: "is_pattern_A K \<Longrightarrow> dot_cij K as bs cij = dot_cij K as' bs cij"
    using dot_cij_A_pattern[OF _ assms(1)] by blast
  have P: "(\<forall>x y. fmult_f x y = one) \<Longrightarrow> dot_cij K as bs cij = dot_cij K as' bs' cij"
    using dot_cij_constant_mult[of K one as as' bs bs' cij] assms fm by simp
  have c1: "(mult_opc = GB_FIRST_opcode \<and> \<not> flipxy \<or> mult_opc = GB_SECOND_opcode \<and> flipxy) \<longrightarrow>
        is_pattern_B K \<and> \<not> is_pattern_A K \<and> dot_cij K as bs cij = dot_cij K as bs' cij"
    using B flags by (auto simp: dot_flags_cases)
  have c2: "(mult_opc = GB_SECOND_opcode \<and> \<not> flipxy \<or> mult_opc = GB_FIRST_opcode \<and> flipxy) \<longrightarrow>
        is_pattern_A K \<and> \<not> is_pattern_B K \<and> dot_cij K as bs cij = dot_cij K as' bs cij"
    using A flags by (auto simp: dot_flags_cases)
  have c3: "mult_opc = GB_PAIR_opcode \<longrightarrow>
        \<not> is_pattern_A K \<and> \<not> is_pattern_B K \<and>
        ((\<forall>x y. fmult_f x y = one) \<longrightarrow> dot_cij K as bs cij = dot_cij K as' bs' cij)"
    using P flags by (auto simp: dot_flags_cases)
  show ?thesis
    unfolding Let_def K_def[symmetric] using c1 c2 c3 by blast
qed

text \<open>
  PLUS_FIRST over integers without \<open>flipxy\<close>, on \<open>A(:,i) = {0: 2, 2: 3}\<close>: the values 5 and 6
  of \<open>B(:,j)\<close> at the rows 0 and 2 can be replaced by 70 and 80, the result is 5 both times.
\<close>

theorem dot_pattern_noninterference_witness:
  "is_pattern_B (plus_first_kernel False) \<and> \<not> is_pattern_A (plus_first_kernel False) \<and>
   dot_cij (plus_first_kernel False) [(0, 2), (2, 3)] [(0, 5), (1, 1), (2, 6)] None = Some 5 \<and>
   dot_cij (plus_first_kernel False) [(0, 2), (2, 3)] [(0, 70), (1, 1), (2, 80)] None = Some 5"
proof -
  have a: "map fst [(0::int, 2::int), (2, 3)] = map fst [(0::int, 2::int), (2, 3)]" by simp
  have b: "map fst [(0::int, 5::int), (1, 1), (2, 6)] = map fst [(0::int, 70::int), (1, 1), (2, 80)]"
    by simp
  have v: "dot_cij (plus_first_kernel False) [(0, 2), (2, 3)] [(0, 5), (1, 1), (2, 6)] None = Some 5"
    by (simp add: plus_first_kernel_def GB_AxB_dot_generic_def dot_pattern_flags_def
        GB_GETA_def GB_GETB_def GB_DOT_MULT_def GB_DOT_TERMINAL_def GB_FIRST_f_def)
  from dot_pattern_noninterference[OF a b, of GB_FIRST_opcode False GB_FIRST_f "\<lambda>x y. x + y"
      None "\<lambda>x. x" "\<lambda>x. x" 0 0 None 1] v
  show ?thesis
    by (simp add: plus_first_kernel_def Let_def)
qed

text \<open>
  The claim as it is written fails in \<open>GB_AxB_dot\<close>: PAIR sets no pattern flag, and for FIRST
  with \<open>flipxy\<close> it is \<open>A\<close> that is the pattern while the values of \<open>B\<close> are read and decide
  the result (5 and 70 below).
\<close>

theorem dot_pattern_counterexample:
  "dot_pattern_flags GB_PAIR_opcode False = (False, False) \<and>
   dot_pattern_flags GB_FIRST_opcode True = (True, False) \<and>
   dot_cij (plus_first_kernel True) [(0, 2)] [(0, 5)] None = Some 5 \<and>
   dot_cij (plus_first_kernel True) [(0, 2)] [(0, 70)] None = Some 70"
  by (simp add: plus_first_kernel_def GB_AxB_dot_generic_def dot_pattern_flags_def
      GB_GETA_def GB_GETB_def GB_DOT_MULT_def GB_DOT_TERMINAL_def GB_FIRST_f_def)

section \<open>Theorems: the checks of GB_ewise\<close>

text \<open>
  Claim C7 (operands are checked before anything is written), as amended. The checks of
  \<open>GB_ewise\<close> run in a fixed order and the first one that fails decides the return code.
  When the checks of \<open>accum\<close>, \<open>GB_compatible\<close> and \<open>GB_BinaryOp_compatible\<close> pass: for
  eWiseAdd, if the type of \<open>C\<close> cannot be typecast from the type of \<open>A\<close> or of \<open>B\<close>, the call
  returns the domain-mismatch error; otherwise, if the transpose-adjusted dimensions of \<open>A\<close>
  and \<open>B\<close> differ from each other or from those of \<open>C\<close>, it returns the dimension-mismatch
  error. Whenever a check fails, the call returns the error with \<open>C\<close> as it was.
\<close>

theorem ewise_checks_before_writes:
  fixes C A B :: "'v GB_Matrix_opaque"
  shows "let dims_differ =
           ((if A_transpose then GB_NCOLS A else GB_NROWS A) \<noteq>
              (if B_transpose then GB_NCOLS B else GB_NROWS B) \<or>
            (if A_transpose then GB_NROWS A else GB_NCOLS A) \<noteq>
              (if B_transpose then GB_NROWS B else GB_NCOLS B) \<or>
            GB_NROWS C \<noteq> (if A_transpose then GB_NCOLS A else GB_NROWS A) \<or>
            GB_NCOLS C \<noteq> (if B_transpose then GB_NROWS B else GB_NCOLS B));
             domain_differs =
           (eWiseAdd \<and> (\<not> GB_Type_compatible (type C) (type A) \<or>
                         \<not> GB_Type_compatible (type C) (type B)));
             earlier_pass =
           (accum_info = GrB_SUCCESS \<and> compatible_info = GrB_SUCCESS \<and>
            binop_info = GrB_SUCCESS);
             info = GB_ewise_check accum_info compatible_info binop_info C A A_transpose
                      B B_transpose eWiseAdd;
             result = GB_ewise accum_info compatible_info binop_info compute C A A_transpose
                        B B_transpose eWiseAdd
         in (earlier_pass \<and> domain_differs \<longrightarrow> result = (GrB_DOMAIN_MISMATCH, C)) \<and>
            (earlier_pass \<and> \<not> domain_differs \<and> dims_differ \<longrightarrow>
               result = (GrB_DIMENSION_MISMATCH, C)) \<and>
            (info \<noteq> GrB_SUCCESS \<longrightarrow> result = (info, C)) \<and>
            (info = GrB_SUCCESS \<longrightarrow>
               earlier_pass \<and> \<not> domain_differs \<and> \<not> dims_differ \<and> result = compute C)"
  by (auto simp: GB_ewise_def GB_ewise_check_def Let_def)

text \<open>
  A 2-by-3 and a 3-by-3 integer matrix into a 2-by-3 output: the dimension-mismatch error,
  and \<open>C\<close> is returned as it was, whatever the remainder of the function would do.
\<close>

theorem ewise_checks_before_writes_witness:
  "GB_ewise GrB_SUCCESS GrB_SUCCESS GrB_SUCCESS (\<lambda>C. (GrB_SUCCESS, C\<lparr>nzmax := 7\<rparr>))
      (empty_csc GrB_INT8 2 3) (empty_csc GrB_INT8 2 3) False (empty_csc GrB_INT8 3 3) False True
    = (GrB_DIMENSION_MISMATCH, empty_csc GrB_INT8 2 3)"
  using ewise_checks_before_writes[where accum_info = GrB_SUCCESS
        and compatible_info = GrB_SUCCESS and binop_info = GrB_SUCCESS and C = "empty_csc GrB_INT8 2 3" and A = "empty_csc GrB_INT8 2 3"
        and B = "empty_csc GrB_INT8 3 3" and A_transpose = False and B_transpose = False
        and eWiseAdd = True and compute = "\<lambda>C. (GrB_SUCCESS, C\<lparr>nzmax := 7\<rparr>)"]
  by (simp add: Let_def GB_NROWS_def GB_NCOLS_def empty_csc_def GB_Type_compatible_def
      GrB_INT8_def)

text \<open>
  The claim as it is written promises the dimension-mismatch error whenever the dimensions
  differ. With a user-defined type for \<open>C\<close>, integer inputs of another shape and eWiseAdd,
  the domain check comes first and the call returns the domain-mismatch error.
\<close>

theorem ewise_checks_counterexample:
  "GB_NROWS (empty_csc GrB_INT8 3 3) \<noteq> GB_NROWS (empty_csc GrB_UDT 2 3) \<and>
   GB_ewise GrB_SUCCESS GrB_SUCCESS GrB_SUCCESS (\<lambda>C. (GrB_SUCCESS, C))
      (empty_csc GrB_UDT 2 3) (empty_csc GrB_INT8 3 3) False (empty_csc GrB_INT8 3 3) False True
    = (GrB_DOMAIN_MISMATCH, empty_csc GrB_UDT 2 3)"
  by (simp add: GB_ewise_def GB_ewise_check_def Let_def GB_NROWS_def GB_NCOLS_def empty_csc_def
      GB_Type_compatible_def GrB_INT8_def GrB_UDT_def)

section \<open>Theorems: dense accumulation with FIRST\<close>

lemma GB_ENSURE_FULL_keeps:
  "x_ptr (GB_ENSURE_FULL C) = x_ptr C"
  "type (GB_ENSURE_FULL C) = type C"
  "vlen (GB_ENSURE_FULL C) = vlen C"
  "vdim (GB_ENSURE_FULL C) = vdim C"
  "is_csc (GB_ENSURE_FULL C) = is_csc C"
  "iso (GB_ENSURE_FULL C) = iso C"
  "nzmax (GB_ENSURE_FULL C) = nzmax C"
  by (simp_all add: GB_ENSURE_FULL_def GB_convert_any_to_full_def)

lemma GB_ENSURE_FULL_id:
  "GxB_FULL \<notin> sparsity_control C \<or> GB_IS_FULL C \<Longrightarrow> GB_ENSURE_FULL C = C"
  by (auto simp: GB_ENSURE_FULL_def GB_convert_any_to_full_def GB_IS_FULL_def)

text \<open>
  Claim C9 (accumulating with FIRST changes nothing), as amended. When the opcode of the
  accumulator is FIRST, \<open>GB_dense_accum_sparse\<close> returns success at once and leaves \<open>C\<close>
  entirely unchanged. \<open>GB_subassign_23\<close> returns success at once when the opcode is FIRST or
  \<open>C\<close> is iso, and leaves \<open>C\<close> as \<open>GB_ENSURE_FULL\<close> left it: unchanged when \<open>C\<close> is already
  full or its sparsity control does not allow the full format, and otherwise converted to
  the full format, with its type, dimensions, orientation, iso flag and value array
  unchanged. Neither function runs the accumulation.
\<close>

theorem dense_accum_first_is_identity:
  assumes "opcode accum = GB_FIRST_opcode"
  shows "GB_dense_accum_sparse accumulate C A accum = (GrB_SUCCESS, C) \<and>
         GB_subassign_23 accumulate C A accum = (GrB_SUCCESS, GB_ENSURE_FULL C) \<and>
         (iso C \<longrightarrow> GB_subassign_23 accumulate C A other_accum = (GrB_SUCCESS, GB_ENSURE_FULL C)) \<and>
         (GxB_FULL \<notin> sparsity_control C \<or> GB_IS_FULL C \<longrightarrow> GB_ENSURE_FULL C = C) \<and>
         x_ptr (GB_ENSURE_FULL C) = x_ptr C \<and> type (GB_ENSURE_FULL C) = type C \<and>
         vlen (GB_ENSURE_FULL C) = vlen C \<and> vdim (GB_ENSURE_FULL C) = vdim C \<and>
         is_csc (GB_ENSURE_FULL C) = is_csc C \<and> iso (GB_ENSURE_FULL C) = iso C"
  using assms GB_ENSURE_FULL_id[of C]
  by (simp add: GB_dense_accum_sparse_def GB_subassign_23_def Let_def GB_ENSURE_FULL_keeps)

text \<open>
  With FIRST, a dense matrix in the sparse format comes back from \<open>GB_dense_accum_sparse\<close>
  as it was, whatever the accumulation would have written.
\<close>

theorem dense_accum_first_is_identity_witness:
  "GB_dense_accum_sparse (\<lambda>C A accum. (GrB_OUT_OF_MEMORY, C\<lparr>x_ptr := None\<rparr>))
      dense_as_sparse dense_as_sparse (int8_binop GB_FIRST_opcode)
    = (GrB_SUCCESS, dense_as_sparse)"
proof -
  have "opcode (int8_binop GB_FIRST_opcode) = GB_FIRST_opcode"
    by (simp add: int8_binop_def)
  from dense_accum_first_is_identity[OF this] show ?thesis by blast
qed

text \<open>
  The claim as it is written says that \<open>GB_subassign_23\<close> leaves \<open>C\<close> entirely unchanged. On
  the dense matrix in the sparse format whose sparsity control allows the full format, the
  call returns a matrix in the full format: \<open>p\<close> and \<open>i\<close> are gone.
\<close>

theorem subassign_23_counterexample:
  "snd (GB_subassign_23 (\<lambda>C A accum. (GrB_SUCCESS, C)) dense_as_sparse dense_as_sparse
          (int8_binop GB_FIRST_opcode)) \<noteq> dense_as_sparse \<and>
   p_ptr (snd (GB_subassign_23 (\<lambda>C A accum. (GrB_SUCCESS, C)) dense_as_sparse dense_as_sparse
          (int8_binop GB_FIRST_opcode))) = None \<and>
   p_ptr dense_as_sparse = Some [0, 2, 4]"
proof -
  let ?r = "snd (GB_subassign_23 (\<lambda>C A accum. (GrB_SUCCESS, C)) dense_as_sparse dense_as_sparse
          (int8_binop GB_FIRST_opcode))"
  have a: "p_ptr ?r = None"
    by (simp add: GB_subassign_23_def Let_def GB_ENSURE_FULL_def GB_convert_any_to_full_def
        dense_as_sparse_def int8_binop_def)
  have b: "p_ptr dense_as_sparse = Some [0, 2, 4]"
    by (simp add: dense_as_sparse_def)
  from a b have "?r \<noteq> dense_as_sparse" by auto
  with a b show ?thesis by blast
qed

section \<open>Theorems: GxB_Matrix_import_CSC\<close>

lemma sint_small:
  assumes "uint (w :: 64 word) < 2 ^ 63"
  shows "sint w = uint w"
proof -
  have "- (2 ^ 63) \<le> uint w" by (rule order_trans[of _ 0]) simp_all
  then have "signed_take_bit 63 (uint w) = uint w"
    using assms by (intro signed_take_bit_int_eq_self) simp_all
  then show ?thesis by (simp add: sint_uint)
qed

lemma import_null_errors:
  assumes "import_check = GrB_SUCCESS"
    and "Ap = None \<or> (0 < nvals \<and> (Ai = None \<or> Ax = None))"
  shows "GxB_Matrix_import_CSC import_check new_info t nrows ncols nvals Ap Ai Ax =
           Some \<lparr> info = GrB_NULL_POINTER, A_out = None, Ap_out = Ap, Ai_out = Ai, Ax_out = Ax \<rparr>"
  using assms
  by (auto simp: GxB_Matrix_import_CSC_def Let_def split: option.splits)

lemma import_success_shape:
  assumes "GxB_Matrix_import_CSC import_check new_info t nrows ncols nvals Ap Ai Ax = Some r"
    and "info r = GrB_SUCCESS"
  shows "\<exists>A Ap_ptr. A_out r = Some A \<and> Ap = Some Ap_ptr \<and> p_ptr A = Ap_ptr \<and>
           Ap_out r = Some None \<and> Ai_out r = free_if_handle Ai \<and> Ax_out r = free_if_handle Ax \<and>
           (0 < nvals \<longrightarrow> Ai \<noteq> None \<and> Ax \<noteq> None \<and> i_ptr A = the Ai \<and> x_ptr A = the Ax) \<and>
           (nvals = 0 \<longrightarrow> i_ptr A = None \<and> x_ptr A = None) \<and>
           magic A = GB_MAGIC \<and> h_ptr A = None \<and> b_ptr A = None \<and> is_csc A \<and> \<not> jumbled A \<and>
           nzmax A = sint nvals \<and> type A = t \<and> vlen A = sint nrows \<and> vdim A = sint ncols \<and>
           nvec A = sint ncols \<and> plen A = sint ncols"
proof (cases "nvals = 0")
  case True
  then show ?thesis
    using assms
    by (auto simp: GxB_Matrix_import_CSC_def Let_def GB_NEW_header_def free_if_handle_def
        split: option.splits if_splits)
next
  case False
  then have pos: "0 < nvals" by (simp add: word_greater_zero_iff)
  show ?thesis
    using assms False pos
    by (auto simp: GxB_Matrix_import_CSC_def Let_def GB_NEW_header_def free_if_handle_def
        split: option.splits if_splits)
qed

lemma import_valid_arrays:
  assumes "import_check = GrB_SUCCESS" and "new_info = GrB_SUCCESS"
    and ok: "csc_arrays_ok nrows ncols nvals Ap Ai Ax"
    and handles: "0 < nvals \<longrightarrow> Ai \<noteq> None \<and> Ax \<noteq> None"
  shows "\<exists>r A. GxB_Matrix_import_CSC import_check new_info t nrows ncols nvals Ap Ai Ax = Some r \<and>
           info r = GrB_SUCCESS \<and> A_out r = Some A \<and> GB_sparse_ok A"
proof -
  from ok have small: "uint nrows < 2 ^ 63" "uint ncols < 2 ^ 63" "uint nvals < 2 ^ 63"
    by (simp_all add: csc_arrays_ok_def)
  have s: "sint nrows = uint nrows" "sint ncols = uint ncols" "sint nvals = uint nvals"
    by (rule sint_small[OF small(1)], rule sint_small[OF small(2)], rule sint_small[OF small(3)])
  from ok obtain P where Ap: "Ap = Some (Some P)"
    by (auto simp: csc_arrays_ok_def split: option.splits)
  from ok Ap have P: "length P = unat ncols + 1" "P ! 0 = 0" "sorted P"
    "P ! unat ncols \<le> uint nvals"
    by (auto simp: csc_arrays_ok_def Let_def)
  show ?thesis
  proof (cases "nvals = 0")
    case True
    then have nz: "\<not> P ! unat ncols > 0" using P(4) by simp
    show ?thesis
      using assms(1,2) Ap True P nz s
      by (simp add: GxB_Matrix_import_CSC_def Let_def GB_NEW_header_def GB_sparse_ok_def)
  next
    case False
    then have pos: "0 < nvals" by (simp add: word_greater_zero_iff)
    then obtain qi qx where h: "Ai = Some qi" "Ax = Some qx"
      using handles by auto
    let ?A2 = "(GB_NEW_header t (sint nrows) (sint ncols) :: 'a GB_Matrix_opaque)
                 \<lparr> h_ptr := None, p_ptr := Some P, nzmax := sint nvals,
                   plen := sint ncols, nvec := sint ncols, magic := GB_MAGIC,
                   i_ptr := qi, x_ptr := qx \<rparr>"
    have lenP: "int (length P) = uint ncols + 1"
      using P(1) by simp
    have "\<exists>n. GB_nvec_nonempty ?A2 = Some n"
    proof (cases "uint ncols = 0")
      case True
      then show ?thesis using s by (simp add: GB_nvec_nonempty_def)
    next
      case False
      then have "0 < uint ncols" by (simp add: less_le)
      then show ?thesis using s lenP by (simp add: GB_nvec_nonempty_def)
    qed
    then obtain n where n: "GB_nvec_nonempty ?A2 = Some n" by blast
    have entries: "P ! unat ncols > 0 \<longrightarrow>
             (case (qi, qx) of
                (Some I, Some X) \<Rightarrow>
                   P ! unat ncols \<le> int (length I) \<and> P ! unat ncols \<le> int (length X) \<and>
                   (\<forall>k \<in> set [0 ..< nat (P ! unat ncols)]. 0 \<le> I ! k \<and> I ! k < uint nrows) \<and>
                   (\<forall>j \<in> set [0 ..< unat ncols]. vector_sorted I (P ! j) (P ! (j + 1)))
              | _ \<Rightarrow> False)"
      using ok Ap h by (auto simp: csc_arrays_ok_def Let_def split: option.splits)
    have "GB_sparse_ok (?A2\<lparr> nvec_nonempty := n \<rparr>)"
      using P entries s
      by (auto simp: GB_sparse_ok_def GB_NEW_header_def Let_def split: option.splits)
    moreover have "GxB_Matrix_import_CSC import_check new_info t nrows ncols nvals Ap Ai Ax =
        Some \<lparr> info = GrB_SUCCESS, A_out = Some (?A2\<lparr> nvec_nonempty := n \<rparr>),
               Ap_out = Some None, Ai_out = Some None, Ax_out = Some None \<rparr>"
      using assms(1,2) Ap False pos h n
      by (simp add: GxB_Matrix_import_CSC_def Let_def)
    ultimately show ?thesis by simp
  qed
qed

text \<open>
  Claim C10 (the import takes ownership of the caller's arrays), as amended. After
  \<open>GB_IMPORT_CHECK\<close> has passed, the import returns the null-pointer error, with no matrix
  and the caller's pointers untouched, if \<open>Ap\<close> is \<open>NULL\<close>, or if \<open>nvals > 0\<close> and \<open>Ai\<close> or \<open>Ax\<close>
  is \<open>NULL\<close>. On success the caller's \<open>*Ap\<close>, \<open>*Ai\<close> and \<open>*Ax\<close> are \<open>NULL\<close> (a \<open>NULL\<close> handle
  \<open>Ai\<close> or \<open>Ax\<close> is accepted when \<open>nvals = 0\<close>): \<open>*Ap\<close> has become the \<open>p\<close> of the new matrix
  and, when \<open>nvals > 0\<close>, \<open>*Ai\<close> and \<open>*Ax\<close> its \<open>i\<close> and \<open>x\<close>; when \<open>nvals = 0\<close> they are freed.
  The new matrix is marked valid, column-oriented and not hypersparse. Its \<open>nzmax\<close> is
  \<open>nvals\<close> as the signed 64-bit field holds it, and so are its dimensions: equal to \<open>nvals\<close>,
  \<open>nrows\<close> and \<open>ncols\<close> when these are below \<open>2^63\<close>. The arrays are taken as they are: the
  matrix satisfies the invariants of a sparse matrix when the caller's arrays do and the
  three numbers are below \<open>2^63\<close>, and then the import does succeed.
\<close>

theorem import_CSC_takes_ownership:
  "(import_check = GrB_SUCCESS \<and> (Ap = None \<or> (0 < nvals \<and> (Ai = None \<or> Ax = None))) \<longrightarrow>
      GxB_Matrix_import_CSC import_check new_info t nrows ncols nvals Ap Ai Ax =
        Some \<lparr> info = GrB_NULL_POINTER, A_out = None, Ap_out = Ap, Ai_out = Ai,
               Ax_out = (Ax :: 'v list option option) \<rparr>) \<and>
   (\<forall>r. GxB_Matrix_import_CSC import_check new_info t nrows ncols nvals Ap Ai Ax = Some r \<and>
        info r = GrB_SUCCESS \<longrightarrow>
        (\<exists>A Ap_ptr. A_out r = Some A \<and> Ap = Some Ap_ptr \<and> p_ptr A = Ap_ptr \<and>
           Ap_out r = Some None \<and> Ai_out r = free_if_handle Ai \<and> Ax_out r = free_if_handle Ax \<and>
           (0 < nvals \<longrightarrow> Ai \<noteq> None \<and> Ax \<noteq> None \<and> i_ptr A = the Ai \<and> x_ptr A = the Ax) \<and>
           (nvals = 0 \<longrightarrow> i_ptr A = None \<and> x_ptr A = None) \<and>
           magic A = GB_MAGIC \<and> h_ptr A = None \<and> b_ptr A = None \<and> is_csc A \<and> \<not> jumbled A \<and>
           nzmax A = sint nvals \<and> type A = t \<and> vlen A = sint nrows \<and> vdim A = sint ncols \<and>
           nvec A = sint ncols \<and> plen A = sint ncols \<and>
           (uint nvals < 2 ^ 63 \<longrightarrow> nzmax A = uint nvals) \<and>
           (uint nrows < 2 ^ 63 \<longrightarrow> vlen A = uint nrows) \<and>
           (uint ncols < 2 ^ 63 \<longrightarrow> vdim A = uint ncols \<and> nvec A = uint ncols))) \<and>
   (import_check = GrB_SUCCESS \<and> new_info = GrB_SUCCESS \<and>
    csc_arrays_ok nrows ncols nvals Ap Ai Ax \<and> (0 < nvals \<longrightarrow> Ai \<noteq> None \<and> Ax \<noteq> None) \<longrightarrow>
      (\<exists>r A. GxB_Matrix_import_CSC import_check new_info t nrows ncols nvals Ap Ai Ax = Some r \<and>
           info r = GrB_SUCCESS \<and> A_out r = Some A \<and> GB_sparse_ok A))"
proof (intro conjI impI allI)
  assume "import_check = GrB_SUCCESS \<and> (Ap = None \<or> (0 < nvals \<and> (Ai = None \<or> Ax = None)))"
  then show "GxB_Matrix_import_CSC import_check new_info t nrows ncols nvals Ap Ai Ax =
        Some \<lparr> info = GrB_NULL_POINTER, A_out = None, Ap_out = Ap, Ai_out = Ai, Ax_out = Ax \<rparr>"
    using import_null_errors[of import_check Ap nvals Ai Ax new_info t nrows ncols] by blast
next
  fix r :: "'v import_result"
  assume "GxB_Matrix_import_CSC import_check new_info t nrows ncols nvals Ap Ai Ax = Some r \<and>
        info r = GrB_SUCCESS"
  then obtain A Ap_ptr where shape: "A_out r = Some A \<and> Ap = Some Ap_ptr \<and> p_ptr A = Ap_ptr \<and>
           Ap_out r = Some None \<and> Ai_out r = free_if_handle Ai \<and> Ax_out r = free_if_handle Ax \<and>
           (0 < nvals \<longrightarrow> Ai \<noteq> None \<and> Ax \<noteq> None \<and> i_ptr A = the Ai \<and> x_ptr A = the Ax) \<and>
           (nvals = 0 \<longrightarrow> i_ptr A = None \<and> x_ptr A = None) \<and>
           magic A = GB_MAGIC \<and> h_ptr A = None \<and> b_ptr A = None \<and> is_csc A \<and> \<not> jumbled A \<and>
           nzmax A = sint nvals \<and> type A = t \<and> vlen A = sint nrows \<and> vdim A = sint ncols \<and>
           nvec A = sint ncols \<and> plen A = sint ncols"
    using import_success_shape[of import_check new_info t nrows ncols nvals Ap Ai Ax r] by blast
  have small: "(uint nvals < 2 ^ 63 \<longrightarrow> nzmax A = uint nvals) \<and>
           (uint nrows < 2 ^ 63 \<longrightarrow> vlen A = uint nrows) \<and>
           (uint ncols < 2 ^ 63 \<longrightarrow> vdim A = uint ncols \<and> nvec A = uint ncols)"
    using shape sint_small[of nvals] sint_small[of nrows] sint_small[of ncols] by simp
  show "\<exists>A Ap_ptr. A_out r = Some A \<and> Ap = Some Ap_ptr \<and> p_ptr A = Ap_ptr \<and>
           Ap_out r = Some None \<and> Ai_out r = free_if_handle Ai \<and> Ax_out r = free_if_handle Ax \<and>
           (0 < nvals \<longrightarrow> Ai \<noteq> None \<and> Ax \<noteq> None \<and> i_ptr A = the Ai \<and> x_ptr A = the Ax) \<and>
           (nvals = 0 \<longrightarrow> i_ptr A = None \<and> x_ptr A = None) \<and>
           magic A = GB_MAGIC \<and> h_ptr A = None \<and> b_ptr A = None \<and> is_csc A \<and> \<not> jumbled A \<and>
           nzmax A = sint nvals \<and> type A = t \<and> vlen A = sint nrows \<and> vdim A = sint ncols \<and>
           nvec A = sint ncols \<and> plen A = sint ncols \<and>
           (uint nvals < 2 ^ 63 \<longrightarrow> nzmax A = uint nvals) \<and>
           (uint nrows < 2 ^ 63 \<longrightarrow> vlen A = uint nrows) \<and>
           (uint ncols < 2 ^ 63 \<longrightarrow> vdim A = uint ncols \<and> nvec A = uint ncols)"
    by (rule exI[where x = A], rule exI[where x = Ap_ptr]) (use shape small in blast)
next
  assume "import_check = GrB_SUCCESS \<and> new_info = GrB_SUCCESS \<and>
    csc_arrays_ok nrows ncols nvals Ap Ai Ax \<and> (0 < nvals \<longrightarrow> Ai \<noteq> None \<and> Ax \<noteq> None)"
  then show "\<exists>r A. GxB_Matrix_import_CSC import_check new_info t nrows ncols nvals Ap Ai Ax = Some r \<and>
           info r = GrB_SUCCESS \<and> A_out r = Some A \<and> GB_sparse_ok A"
    using import_valid_arrays[of import_check new_info nrows ncols nvals Ap Ai Ax t] by blast
qed

text \<open>
  A 2-by-2 matrix with the entries \<open>(0,0) = 7\<close> and \<open>(1,1) = 9\<close>: the import succeeds, the
  matrix satisfies the invariants, and the caller's three pointers are \<open>NULL\<close>.
\<close>

theorem import_CSC_takes_ownership_witness:
  "\<exists>r A. GxB_Matrix_import_CSC GrB_SUCCESS GrB_SUCCESS GrB_INT8 2 2 2
            (Some (Some [0, 1, 2])) (Some (Some [0, 1])) (Some (Some [7, 9 :: int])) = Some r \<and>
         info r = GrB_SUCCESS \<and> A_out r = Some A \<and> GB_sparse_ok A \<and>
         p_ptr A = Some [0, 1, 2] \<and> nzmax A = 2 \<and>
         Ap_out r = Some None \<and> Ai_out r = Some None \<and> Ax_out r = Some None"
proof -
  let ?Ap = "Some (Some [0, 1, 2 :: int])"
  let ?Ai = "Some (Some [0, 1 :: int])"
  let ?Ax = "Some (Some [7, 9 :: int])"
  have sorted_cols: "vector_sorted [0, 1] 0 1" "vector_sorted [0, 1] 1 2"
    by (simp_all add: vector_sorted_def)
  have ok: "csc_arrays_ok 2 2 2 ?Ap ?Ai ?Ax"
    unfolding csc_arrays_ok_def Let_def
    using sorted_cols by (simp add: upt_rec nth_Cons')
  note T = import_CSC_takes_ownership[of GrB_SUCCESS ?Ap 2 ?Ai ?Ax GrB_SUCCESS GrB_INT8 2 2]
  have "\<exists>r A. GxB_Matrix_import_CSC GrB_SUCCESS GrB_SUCCESS GrB_INT8 2 2 2 ?Ap ?Ai ?Ax = Some r \<and>
           info r = GrB_SUCCESS \<and> A_out r = Some A \<and> GB_sparse_ok A"
    using T[THEN conjunct2, THEN conjunct2] ok by simp
  then obtain r A where r:
    "GxB_Matrix_import_CSC GrB_SUCCESS GrB_SUCCESS GrB_INT8 2 2 2 ?Ap ?Ai ?Ax = Some r"
    "info r = GrB_SUCCESS" "A_out r = Some A" "GB_sparse_ok A"
    by blast
  have "\<exists>A' q. A_out r = Some A' \<and> ?Ap = Some q \<and> p_ptr A' = q \<and>
           Ap_out r = Some None \<and> Ai_out r = free_if_handle ?Ai \<and>
           Ax_out r = free_if_handle ?Ax \<and> nzmax A' = sint (2 :: 64 word)"
    using T[THEN conjunct2, THEN conjunct1, rule_format, of r] r(1,2) by blast
  then have "p_ptr A = Some [0, 1, 2]" "nzmax A = 2" "Ap_out r = Some None"
    "Ai_out r = Some None" "Ax_out r = Some None"
    using r(3) by (auto simp: free_if_handle_def)
  with r show ?thesis by blast
qed

text \<open>
  The claim as it is written says that the matrix is valid on every successful call, with
  \<open>nzmax\<close> equal to \<open>nvals\<close>. With \<open>Ap = [0, 5]\<close> for a matrix of one column and \<open>nvals = 2\<close>
  the import succeeds, and the matrix claims five entries in arrays of two. With
  \<open>nvals = 2^63\<close> for a matrix without columns the import succeeds with \<open>nzmax = -2^63\<close>.
\<close>

theorem import_CSC_counterexample:
  "GxB_Matrix_import_CSC GrB_SUCCESS GrB_SUCCESS GrB_INT8 2 1 2
      (Some (Some [0, 5])) (Some (Some [0, 1])) (Some (Some [7, 9 :: int]))
     = Some \<lparr> info = GrB_SUCCESS, A_out = Some overfull_import,
              Ap_out = Some None, Ai_out = Some None, Ax_out = Some None \<rparr> \<and>
   \<not> GB_sparse_ok overfull_import \<and>
   GxB_Matrix_import_CSC GrB_SUCCESS GrB_SUCCESS GrB_INT8 2 0 (2 ^ 63)
      (Some (Some [0])) (Some (Some [])) (Some (Some ([] :: int list)))
     = Some \<lparr> info = GrB_SUCCESS, A_out = Some wrapped_import,
              Ap_out = Some None, Ai_out = Some None, Ax_out = Some None \<rparr> \<and>
   nzmax wrapped_import = - (2 ^ 63) \<and> \<not> GB_sparse_ok wrapped_import"
proof -
  have nv: "GB_nvec_nonempty
     ((GB_NEW_header GrB_INT8 2 1 :: int GB_Matrix_opaque)
        \<lparr> h_ptr := None, p_ptr := Some [0, 5], nzmax := 2, plen := 1, nvec := 1,
          magic := GB_MAGIC, i_ptr := Some [0, 1], x_ptr := Some [7, 9] \<rparr>) = Some 1"
    by (simp add: GB_nvec_nonempty_def)
  have "GxB_Matrix_import_CSC GrB_SUCCESS GrB_SUCCESS GrB_INT8 2 1 2
      (Some (Some [0, 5])) (Some (Some [0, 1])) (Some (Some [7, 9 :: int]))
     = Some \<lparr> info = GrB_SUCCESS, A_out = Some overfull_import,
              Ap_out = Some None, Ai_out = Some None, Ax_out = Some None \<rparr>"
    by (simp add: GxB_Matrix_import_CSC_def Let_def nv)
       (simp add: GB_NEW_header_def overfull_import_def)
  moreover have "\<not> GB_sparse_ok overfull_import"
    by (simp add: GB_sparse_ok_def overfull_import_def)
  moreover have big: "sint ((2 :: 64 word) ^ 63) = - (2 ^ 63)" "0 < (2 :: 64 word) ^ 63"
    "(2 :: 64 word) ^ 63 \<noteq> 0"
    by simp_all
  have nv0: "GB_nvec_nonempty
     ((GB_NEW_header GrB_INT8 2 0 :: int GB_Matrix_opaque)
        \<lparr> h_ptr := None, p_ptr := Some [0], nzmax := - 9223372036854775808, plen := 0,
          nvec := 0, magic := GB_MAGIC, i_ptr := Some [], x_ptr := Some [] \<rparr>) = Some 0"
    by (simp add: GB_nvec_nonempty_def)
  have "GxB_Matrix_import_CSC GrB_SUCCESS GrB_SUCCESS GrB_INT8 2 0 (2 ^ 63)
      (Some (Some [0])) (Some (Some [])) (Some (Some ([] :: int list)))
     = Some \<lparr> info = GrB_SUCCESS, A_out = Some wrapped_import,
              Ap_out = Some None, Ai_out = Some None, Ax_out = Some None \<rparr>"
    using big by (simp add: GxB_Matrix_import_CSC_def Let_def nv0)
       (simp add: GB_NEW_header_def wrapped_import_def)
  moreover have "nzmax wrapped_import = - (2 ^ 63)" "\<not> GB_sparse_ok wrapped_import"
    by (simp_all add: GB_sparse_ok_def wrapped_import_def)
  ultimately show ?thesis by blast
qed

section \<open>Theorems: GxB_Matrix_export_CSC\<close>

text \<open>
  Claim C8 (the export finishes the pending work first). On every successful call the
  exported matrix is sparse, column-oriented, without zombies and without pending tuples.
  When the caller's \<open>jumbled\<close> is \<open>NULL\<close> the matrix is fully waited, so it is not jumbled:
  the indices of every column are sorted. When \<open>jumbled\<close> is not \<open>NULL\<close>, the wait runs only
  if there are pending tuples or zombies; a CSC matrix that has neither keeps its jumbled
  flag, and the flag of the exported matrix is what is written to \<open>*jumbled\<close>.
\<close>

theorem export_CSC_finalizes:
  assumes "GxB_Matrix_export_CSC check_info transposed transpose_info wait_info convert_info
             gb_export_info A jumbled_handle = r"
    and "export_info r = GrB_SUCCESS"
  shows "\<exists>E. exported r = Some E \<and>
           st_format E = GxB_SPARSE \<and> st_is_csc E \<and> st_nzombies E = 0 \<and> st_npending E = 0 \<and>
           (jumbled_handle = None \<longrightarrow> \<not> st_jumbled E \<and> jumbled_out r = None) \<and>
           (jumbled_handle \<noteq> None \<longrightarrow> jumbled_out r = Some (st_jumbled E)) \<and>
           (jumbled_handle \<noteq> None \<and> st_is_csc A \<and> st_nzombies A = 0 \<and> st_npending A = 0 \<longrightarrow>
              st_jumbled E = st_jumbled A)"
  using assms
  by (auto simp: GxB_Matrix_export_CSC_def Let_def GB_MATRIX_WAIT_def
      GB_MATRIX_WAIT_IF_PENDING_OR_ZOMBIES_def GB_Matrix_wait_def GB_transpose_in_place_def
      GB_convert_any_to_sparse_def split: if_splits option.splits)

text \<open>
  A row-oriented bitmap matrix with three zombies, two pending tuples and jumbled vectors,
  exported with \<open>jumbled = NULL\<close>: the result is sparse CSC with no pending work. A jumbled
  CSC matrix exported with a \<open>jumbled\<close> argument stays jumbled and says so.
\<close>

theorem export_CSC_finalizes_witness:
  "GxB_Matrix_export_CSC GrB_SUCCESS csr_with_zombies GrB_SUCCESS GrB_SUCCESS GrB_SUCCESS
      GrB_SUCCESS csr_with_zombies None
     = \<lparr> export_info = GrB_SUCCESS,
         exported = Some \<lparr> st_is_csc = True, st_format = GxB_SPARSE, st_nzombies = 0,
                            st_npending = 0, st_jumbled = False \<rparr>,
         jumbled_out = None \<rparr> \<and>
   GxB_Matrix_export_CSC GrB_SUCCESS jumbled_csc GrB_SUCCESS GrB_SUCCESS GrB_SUCCESS
      GrB_SUCCESS jumbled_csc (Some ())
     = \<lparr> export_info = GrB_SUCCESS, exported = Some jumbled_csc, jumbled_out = Some True \<rparr>"
proof -
  let ?r1 = "GxB_Matrix_export_CSC GrB_SUCCESS csr_with_zombies GrB_SUCCESS GrB_SUCCESS
      GrB_SUCCESS GrB_SUCCESS csr_with_zombies None"
  let ?r2 = "GxB_Matrix_export_CSC GrB_SUCCESS jumbled_csc GrB_SUCCESS GrB_SUCCESS GrB_SUCCESS
      GrB_SUCCESS jumbled_csc (Some ())"
  have s1: "export_info ?r1 = GrB_SUCCESS"
    by (simp add: GxB_Matrix_export_CSC_def Let_def csr_with_zombies_def)
  have s2: "export_info ?r2 = GrB_SUCCESS"
    by (simp add: GxB_Matrix_export_CSC_def Let_def jumbled_csc_def)
  from export_CSC_finalizes[OF refl s1] obtain E1 where E1: "exported ?r1 = Some E1"
    "st_format E1 = GxB_SPARSE" "st_is_csc E1" "st_nzombies E1 = 0" "st_npending E1 = 0"
    "\<not> st_jumbled E1" "jumbled_out ?r1 = None"
    by auto
  have "?r1 = \<lparr> export_info = GrB_SUCCESS, exported = Some E1, jumbled_out = None \<rparr>"
    using s1 E1(1,7) by (cases ?r1) simp
  moreover have "E1 = \<lparr> st_is_csc = True, st_format = GxB_SPARSE, st_nzombies = 0,
                            st_npending = 0, st_jumbled = False \<rparr>"
    using E1 by (cases E1) simp
  moreover have "?r2 = \<lparr> export_info = GrB_SUCCESS, exported = Some jumbled_csc,
                           jumbled_out = Some True \<rparr>"
    by (simp add: GxB_Matrix_export_CSC_def Let_def jumbled_csc_def
        GB_MATRIX_WAIT_IF_PENDING_OR_ZOMBIES_def GB_convert_any_to_sparse_def)
  ultimately show ?thesis by simp
qed

section \<open>Theorems: the fast path of GB_ewise\<close>

lemma transplant_is_protocol:
  assumes masked: "\<And>ij. M \<noteq> None \<Longrightarrow> \<not> mask_at M Mask_struct Mask_comp ij \<Longrightarrow> lm_entries T ij = None"
    and quick: "M = None \<Longrightarrow> \<not> Mask_comp"
    and clear: "C_replace \<or> lm_entries C = (\<lambda>ij. None)"
  shows "lm_entries (GB_transplant_conform cast C T) =
           masked_accum_protocol cast (lm_entries C) M None (lm_entries T)
             C_replace Mask_comp Mask_struct"
proof
  fix ij
  show "lm_entries (GB_transplant_conform cast C T) ij =
          masked_accum_protocol cast (lm_entries C) M None (lm_entries T)
            C_replace Mask_comp Mask_struct ij"
  proof (cases "mask_at M Mask_struct Mask_comp ij")
      case True
      then show ?thesis
        by (simp add: GB_transplant_conform_def masked_accum_protocol_def masked_accum_cell_def)
    next
      case False
      then have "M \<noteq> None" using quick by (cases M) (auto simp: mask_at_def Let_def)
      then have "lm_entries T ij = None" using masked False by blast
      moreover have "\<not> C_replace \<Longrightarrow> lm_entries C ij = None" using clear by auto
      ultimately show ?thesis using False
        by (auto simp: GB_transplant_conform_def masked_accum_protocol_def masked_accum_cell_def)
    qed
qed

text \<open>
  Claim C2 (the transplant is the protocol). Let the bound on the entries of \<open>C\<close> be a bound
  (zero only if \<open>C\<close> has no entry), let \<open>mask_applied\<close> with a mask mean that \<open>T\<close> has no entry
  where the mask is false, and let an absent mask not be complemented (\<open>GB_ewise\<close> has
  returned before in that case). Then the matrix that the end of \<open>GB_ewise\<close> leaves in \<open>C\<close>
  is logically equal to the result of the masked accumulation protocol in every case; when
  \<open>accum\<close> is absent, \<open>T\<close> has the orientation of \<open>C\<close>, the mask is absent or was applied, and
  \<open>C_replace\<close> is set or \<open>C\<close> has no entries, it is \<open>T\<close> typecast to the type of \<open>C\<close>. In
  particular with no mask, no \<open>accum\<close> and \<open>C_replace\<close>, the final \<open>C\<close> is logically \<open>T\<close>.
\<close>

theorem ewise_fast_path_is_protocol:
  assumes bound: "lm_nnz_upper_bound C = 0 \<longrightarrow> lm_entries C = (\<lambda>ij. None)"
    and masked: "M \<noteq> None \<and> mask_applied \<longrightarrow>
                   (\<forall>ij. \<not> mask_at M Mask_struct Mask_comp ij \<longrightarrow> lm_entries T ij = None)"
    and quick: "M = None \<longrightarrow> \<not> Mask_comp"
  shows "lm_entries (GB_ewise_finish cast C C_replace M Mask_comp Mask_struct accum T mask_applied)
           = masked_accum_protocol cast (lm_entries C) M accum (lm_entries T)
               C_replace Mask_comp Mask_struct \<and>
         (accum = None \<and> lm_is_csc C = lm_is_csc T \<and> (M = None \<or> mask_applied) \<and>
          (C_replace \<or> lm_nnz_upper_bound C = 0) \<longrightarrow>
            GB_ewise_finish cast C C_replace M Mask_comp Mask_struct accum T mask_applied
              = GB_transplant_conform cast C T \<and>
            lm_entries (GB_ewise_finish cast C C_replace M Mask_comp Mask_struct accum T
                          mask_applied) = (\<lambda>ij. map_option cast (lm_entries T ij))) \<and>
         (M = None \<and> accum = None \<and> C_replace \<longrightarrow>
            lm_entries (GB_ewise_finish cast C C_replace M Mask_comp Mask_struct accum T
                          mask_applied) = (\<lambda>ij. map_option cast (lm_entries T ij)))"
proof -
  let ?F = "GB_ewise_finish cast C C_replace M Mask_comp Mask_struct accum T mask_applied"
  let ?P = "masked_accum_protocol cast (lm_entries C) M accum (lm_entries T)
               C_replace Mask_comp Mask_struct"
  let ?fast = "accum = None \<and> lm_is_csc C = lm_is_csc T \<and> (M = None \<or> (M \<noteq> None \<and> mask_applied))
         \<and> (C_replace \<or> lm_nnz_upper_bound C = 0)"
  have fast_fin: "?fast \<Longrightarrow> ?F = GB_transplant_conform cast C T"
    by (simp add: GB_ewise_finish_def)
  have protocol: "lm_entries ?F = ?P"
  proof (cases ?fast)
    case True
    have m: "\<And>ij. M \<noteq> None \<Longrightarrow> \<not> mask_at M Mask_struct Mask_comp ij \<Longrightarrow> lm_entries T ij = None"
      using masked True by blast
    have c: "C_replace \<or> lm_entries C = (\<lambda>ij. None)"
      using bound True by auto
    have "lm_entries (GB_transplant_conform cast C T) =
             masked_accum_protocol cast (lm_entries C) M None (lm_entries T)
               C_replace Mask_comp Mask_struct"
      using transplant_is_protocol[of M Mask_struct Mask_comp T C_replace C cast] m quick c
      by blast
    then show ?thesis using True fast_fin by simp
  next
    case False
    then show ?thesis
      by (auto simp: GB_ewise_finish_def GB_accum_mask_def)
  qed
  have transplant: "?fast \<Longrightarrow> lm_entries ?F = (\<lambda>ij. map_option cast (lm_entries T ij))"
    using fast_fin by (simp add: GB_transplant_conform_def)
  have identity: "M = None \<and> accum = None \<and> C_replace \<Longrightarrow>
      ?P = (\<lambda>ij. map_option cast (lm_entries T ij))"
    using quick
    by (auto simp: masked_accum_protocol_def masked_accum_cell_def mask_at_def)
  have last: "M = None \<and> accum = None \<and> C_replace \<longrightarrow>
      lm_entries ?F = (\<lambda>ij. map_option cast (lm_entries T ij))"
  proof
    assume a: "M = None \<and> accum = None \<and> C_replace"
    show "lm_entries ?F = (\<lambda>ij. map_option cast (lm_entries T ij))"
      by (rule trans[OF protocol identity[OF a]])
  qed
  have mid: "accum = None \<and> lm_is_csc C = lm_is_csc T \<and> (M = None \<or> mask_applied) \<and>
          (C_replace \<or> lm_nnz_upper_bound C = 0) \<longrightarrow>
            ?F = GB_transplant_conform cast C T \<and>
            lm_entries ?F = (\<lambda>ij. map_option cast (lm_entries T ij))"
  proof
    assume "accum = None \<and> lm_is_csc C = lm_is_csc T \<and> (M = None \<or> mask_applied) \<and>
          (C_replace \<or> lm_nnz_upper_bound C = 0)"
    then have f: ?fast by auto
    show "?F = GB_transplant_conform cast C T \<and>
            lm_entries ?F = (\<lambda>ij. map_option cast (lm_entries T ij))"
      by (rule conjI[OF fast_fin[OF f] transplant[OF f]])
  qed
  show ?thesis
    by (rule conjI[OF protocol conjI[OF mid last]])
qed

text \<open>
  With no mask and no \<open>accum\<close>, \<open>C_replace\<close> set, \<open>C = {(0,0): 1}\<close> and \<open>T = {(1,1): 5}\<close>: the
  final \<open>C\<close> has the entry of \<open>T\<close> and has lost its own, as the protocol says.
\<close>

theorem ewise_fast_path_is_protocol_witness:
  "lm_entries (GB_ewise_finish (\<lambda>z. z) (one_entry (0, 0) 1) True None False False None
                 (one_entry (1, 1) 5) False) (1, 1) = Some 5 \<and>
   lm_entries (GB_ewise_finish (\<lambda>z. z) (one_entry (0, 0) 1) True None False False None
                 (one_entry (1, 1) 5) False) (0, 0) = None \<and>
   masked_accum_protocol (\<lambda>z. z) (lm_entries (one_entry (0, 0) 1)) None None
       (lm_entries (one_entry (1, 1) 5)) True False False (0, 0) = None"
proof -
  have b: "lm_nnz_upper_bound (one_entry (0, 0) 1) = 0 \<longrightarrow>
             lm_entries (one_entry (0, 0) 1) = (\<lambda>ij. None)"
    by (simp add: one_entry_def)
  have m: "(None :: (int \<times> int \<Rightarrow> bool option) option) \<noteq> None \<and> False \<longrightarrow>
             (\<forall>ij. \<not> mask_at None False False ij \<longrightarrow> lm_entries (one_entry (1, 1) 5) ij = None)"
    by simp
  have q: "(None :: (int \<times> int \<Rightarrow> bool option) option) = None \<longrightarrow> \<not> False"
    by simp
  note T = ewise_fast_path_is_protocol[OF b m q, of "\<lambda>z. z" True None]
  let ?F = "GB_ewise_finish (\<lambda>z. z) (one_entry (0, 0) 1) True None False False None
                 (one_entry (1, 1) 5) False"
  have cond: "(None :: (int \<Rightarrow> int \<Rightarrow> int) option) = None \<and>
      lm_is_csc (one_entry (0, 0) 1) = lm_is_csc (one_entry (1, 1) 5) \<and>
      ((None :: (int \<times> int \<Rightarrow> bool option) option) = None \<or> False) \<and>
      (True \<or> lm_nnz_upper_bound (one_entry (0, 0) 1) = 0)"
    by (simp add: one_entry_def)
  have e: "lm_entries ?F = (\<lambda>ij. map_option (\<lambda>z. z) (lm_entries (one_entry (1, 1) 5) ij))"
    using T[THEN conjunct2, THEN conjunct1, rule_format, OF cond] by blast
  have p: "masked_accum_protocol (\<lambda>z. z) (lm_entries (one_entry (0, 0) 1)) None None
       (lm_entries (one_entry (1, 1) 5)) True False False = lm_entries ?F"
    using T[THEN conjunct1] by simp
  show ?thesis
    unfolding p unfolding e by (simp add: one_entry_def)
qed

section \<open>Theorems: element-wise multiply is the intersection\<close>

declare GB_BINARY_TRIM_SEARCH.simps [simp del]
declare emult_search_A.simps [simp del]
declare emult_search_B.simps [simp del]
declare emult_merge.simps [simp del]
declare emult_mask.simps [simp del]

lemma increasing_onD:
  "increasing_on X lo hi \<Longrightarrow> lo \<le> p \<Longrightarrow> p < q \<Longrightarrow> q < hi \<Longrightarrow> X ! nat p < X ! nat q"
  by (simp add: increasing_on_def)

lemma increasing_on_le:
  "increasing_on X lo hi \<Longrightarrow> lo \<le> p \<Longrightarrow> p \<le> q \<Longrightarrow> q < hi \<Longrightarrow> X ! nat p \<le> X ! nat q"
  using increasing_onD[of X lo hi p q] by (cases "p = q") auto

lemma increasing_on_sub:
  "increasing_on X lo hi \<Longrightarrow> lo \<le> lo' \<Longrightarrow> hi' \<le> hi \<Longrightarrow> increasing_on X lo' hi'"
  by (simp add: increasing_on_def)

lemma increasing_on_inj:
  assumes "increasing_on X lo hi" "lo \<le> p" "p < hi" "lo \<le> q" "q < hi" "X ! nat p = X ! nat q"
  shows "p = q"
proof (rule ccontr)
  assume "p \<noteq> q"
  then consider "p < q" | "q < p" by linarith
  then show False
    using increasing_onD[OF assms(1), of p q] increasing_onD[OF assms(1), of q p] assms
    by cases auto
qed

lemma trim_search:
  assumes "increasing_on X pleft (pright + 1)" and "pleft \<le> pright"
    and "GB_BINARY_TRIM_SEARCH i X pleft pright = (pl, pr)"
  shows "pl = pr \<and> pleft \<le> pl \<and> pl \<le> pright \<and>
         (\<forall>p. pleft \<le> p \<and> p < pl \<longrightarrow> X ! nat p < i) \<and>
         (\<forall>p. pl < p \<and> p \<le> pright \<longrightarrow> i < X ! nat p)"
  using assms
proof (induction i X pleft pright rule: GB_BINARY_TRIM_SEARCH.induct)
  case (1 i X pleft pright)
  show ?case
  proof (cases "pleft < pright")
    case False
    then have "pl = pleft" "pr = pright" "pleft = pright"
      using "1.prems"(2,3) by (subst (asm) GB_BINARY_TRIM_SEARCH.simps, simp)+
    then show ?thesis by auto
  next
    case True
    define pm where "pm = (pleft + pright) div 2"
    have pm: "pleft \<le> pm" "pm < pright" using True by (auto simp: pm_def)
    show ?thesis
    proof (cases "X ! nat pm < i")
      case less: True
      have rec: "GB_BINARY_TRIM_SEARCH i X (pm + 1) pright = (pl, pr)"
        using "1.prems"(3) True less
        by (subst (asm) GB_BINARY_TRIM_SEARCH.simps) (simp add: pm_def Let_def)
      have inc: "increasing_on X (pm + 1) (pright + 1)"
        using "1.prems"(1) pm by (auto intro: increasing_on_sub)
      have IH: "pl = pr \<and> pm + 1 \<le> pl \<and> pl \<le> pright \<and>
         (\<forall>p. pm + 1 \<le> p \<and> p < pl \<longrightarrow> X ! nat p < i) \<and>
         (\<forall>p. pl < p \<and> p \<le> pright \<longrightarrow> i < X ! nat p)"
        using "1.IH"(1)[OF True pm_def less inc _ rec] pm by simp
      have low: "\<And>p. pleft \<le> p \<Longrightarrow> p \<le> pm \<Longrightarrow> X ! nat p < i"
        using increasing_on_le[OF "1.prems"(1), of _ pm] pm less by force
      have below: "\<forall>p. pleft \<le> p \<and> p < pl \<longrightarrow> X ! nat p < i"
      proof (intro allI impI)
        fix p assume p: "pleft \<le> p \<and> p < pl"
        show "X ! nat p < i"
        proof (cases "p \<le> pm")
          case True
          then show ?thesis using low[of p] p by simp
        next
          case False
          then have "pm + 1 \<le> p \<and> p < pl" using p by simp
          then show ?thesis using IH by blast
        qed
      qed
      have "pl = pr" "pleft \<le> pl" "pl \<le> pright"
        "\<forall>p. pl < p \<and> p \<le> pright \<longrightarrow> i < X ! nat p"
        using IH pm by auto
      then show ?thesis using below by blast
    next
      case ge: False
      have rec: "GB_BINARY_TRIM_SEARCH i X pleft pm = (pl, pr)"
        using "1.prems"(3) True ge
        by (subst (asm) GB_BINARY_TRIM_SEARCH.simps) (simp add: pm_def Let_def)
      have inc: "increasing_on X pleft (pm + 1)"
        using "1.prems"(1) pm by (auto intro: increasing_on_sub)
      have IH: "pl = pr \<and> pleft \<le> pl \<and> pl \<le> pm \<and>
         (\<forall>p. pleft \<le> p \<and> p < pl \<longrightarrow> X ! nat p < i) \<and>
         (\<forall>p. pl < p \<and> p \<le> pm \<longrightarrow> i < X ! nat p)"
        using "1.IH"(2)[OF True pm_def ge inc _ rec] pm by simp
      have high: "\<And>p. pm < p \<Longrightarrow> p \<le> pright \<Longrightarrow> i < X ! nat p"
        using increasing_onD[OF "1.prems"(1), of pm] pm ge by force
      have above: "\<forall>p. pl < p \<and> p \<le> pright \<longrightarrow> i < X ! nat p"
      proof (intro allI impI)
        fix p assume p: "pl < p \<and> p \<le> pright"
        show "i < X ! nat p"
        proof (cases "p \<le> pm")
          case True
          then have "pl < p \<and> p \<le> pm" using p by simp
          then show ?thesis using IH by blast
        next
          case False
          then show ?thesis using high[of p] p by simp
        qed
      qed
      have "pl = pr" "pleft \<le> pl" "pl \<le> pright"
        "\<forall>p. pleft \<le> p \<and> p < pl \<longrightarrow> X ! nat p < i"
        using IH pm by auto
      then show ?thesis using above by blast
    qed
  qed
qed

lemma binary_search:
  assumes "increasing_on X pleft (pright + 1)" and "pleft \<le> pright"
    and "GB_BINARY_SEARCH i X pleft pright = (pl, found)"
  shows "pleft \<le> pl \<and> pl \<le> pright \<and> (found \<longleftrightarrow> X ! nat pl = i) \<and>
         (\<forall>p. pleft \<le> p \<and> p < pl \<longrightarrow> X ! nat p < i) \<and>
         (\<forall>p. pl < p \<and> p \<le> pright \<longrightarrow> i < X ! nat p)"
proof -
  obtain pl' pr' where t: "GB_BINARY_TRIM_SEARCH i X pleft pright = (pl', pr')"
    by (cases "GB_BINARY_TRIM_SEARCH i X pleft pright")
  from assms(3) t have "pl = pl'" "found = (pl' = pr' \<and> X ! nat pl' = i)"
    by (auto simp: GB_BINARY_SEARCH_def)
  with trim_search[OF assms(1,2) t] show ?thesis by auto
qed

lemma intersection_iff:
  "(i, c) \<in> emult_intersection binop m (vec_entries Ai Ax la ha) (vec_entries Bi Bx lb hb) \<longleftrightarrow>
     (\<exists>p q. la \<le> p \<and> p < ha \<and> lb \<le> q \<and> q < hb \<and> Ai ! nat p = i \<and> Bi ! nat q = i \<and> m i \<and>
            c = binop (Ax ! nat p) (Bx ! nat q))"
  (is "?L \<longleftrightarrow> ?R")
proof
  assume ?L
  then obtain a b where ab: "(i, a) \<in> vec_entries Ai Ax la ha" "(i, b) \<in> vec_entries Bi Bx lb hb"
    "m i" "c = binop a b"
    by (auto simp: emult_intersection_def)
  from ab(1) obtain p where "la \<le> p" "p < ha" "Ai ! nat p = i" "Ax ! nat p = a"
    by (auto simp: vec_entries_def)
  moreover from ab(2) obtain q where "lb \<le> q" "q < hb" "Bi ! nat q = i" "Bx ! nat q = b"
    by (auto simp: vec_entries_def)
  ultimately show ?R using ab(3,4) by blast
next
  assume ?R
  then obtain p q where pq: "la \<le> p" "p < ha" "lb \<le> q" "q < hb" "Ai ! nat p = i"
    "Bi ! nat q = i" "m i" "c = binop (Ax ! nat p) (Bx ! nat q)"
    by blast
  have "(i, Ax ! nat p) \<in> vec_entries Ai Ax la ha"
    using pq(1,2,5) by (force simp: vec_entries_def)
  moreover have "(i, Bx ! nat q) \<in> vec_entries Bi Bx lb hb"
    using pq(3,4,6) by (force simp: vec_entries_def)
  ultimately show ?L using pq(7,8) by (auto simp: emult_intersection_def)
qed

lemma intersection_fst:
  "x \<in> emult_intersection binop m (vec_entries Ai Ax la ha) (vec_entries Bi Bx lb hb) \<Longrightarrow>
     \<exists>p q. la \<le> p \<and> p < ha \<and> lb \<le> q \<and> q < hb \<and> Ai ! nat p = fst x \<and> Bi ! nat q = fst x"
  by (cases x) (auto simp: intersection_iff)

lemma intersection_mono:
  assumes "la \<le> la'" and "lb \<le> lb'"
    and "x \<in> emult_intersection binop m (vec_entries Ai Ax la' ha) (vec_entries Bi Bx lb' hb)"
  shows "x \<in> emult_intersection binop m (vec_entries Ai Ax la ha) (vec_entries Bi Bx lb hb)"
proof -
  obtain i c where x: "x = (i, c)" by (cases x)
  from assms(3) x obtain p q where pq: "la' \<le> p" "p < ha" "lb' \<le> q" "q < hb"
    "Ai ! nat p = i" "Bi ! nat q = i" "m i" "c = binop (Ax ! nat p) (Bx ! nat q)"
    by (auto simp: intersection_iff)
  have "la \<le> p" "lb \<le> q" using assms(1,2) pq by auto
  then show ?thesis unfolding x intersection_iff using pq by blast
qed

lemma merge_intersection:
  assumes "increasing_on Ai pA pA_end" and "increasing_on Bi pB pB_end"
  shows "set (emult_merge binop Ai Ax Bi Bx pA pA_end pB pB_end) =
           emult_intersection binop (\<lambda>i. True) (vec_entries Ai Ax pA pA_end)
             (vec_entries Bi Bx pB pB_end) \<and>
         sorted_wrt (<) (map fst (emult_merge binop Ai Ax Bi Bx pA pA_end pB pB_end))"
  using assms
proof (induction binop Ai Ax Bi Bx pA pA_end pB pB_end rule: emult_merge.induct)
  case (1 binop Ai Ax Bi Bx pA pA_end pB pB_end)
  let ?I = "\<lambda>a b. emult_intersection binop (\<lambda>i. True) (vec_entries Ai Ax a pA_end)
             (vec_entries Bi Bx b pB_end)"
  note incA = "1.prems"(1) and incB = "1.prems"(2)
  show ?case
  proof (cases "pA < pA_end \<and> pB < pB_end")
    case False
    then have "emult_merge binop Ai Ax Bi Bx pA pA_end pB pB_end = []"
      by (subst emult_merge.simps) auto
    moreover have "?I pA pB = {}"
      using False by (auto simp: emult_intersection_def vec_entries_def)
    ultimately show ?thesis by simp
  next
    case True
    define iA where "iA = Ai ! nat pA"
    define iB where "iB = Bi ! nat pB"
    have incA': "increasing_on Ai (pA + 1) pA_end" using incA by (auto intro: increasing_on_sub)
    have incB': "increasing_on Bi (pB + 1) pB_end" using incB by (auto intro: increasing_on_sub)
    have Agt: "\<And>p. pA < p \<Longrightarrow> p < pA_end \<Longrightarrow> iA < Ai ! nat p"
      using increasing_onD[OF incA, of pA] by (simp add: iA_def)
    have Bgt: "\<And>q. pB < q \<Longrightarrow> q < pB_end \<Longrightarrow> iB < Bi ! nat q"
      using increasing_onD[OF incB, of pB] by (simp add: iB_def)
    consider (lt) "iA < iB" | (gt) "iB < iA" | (eq) "iA = iB" by linarith
    then show ?thesis
    proof cases
      case lt
      have unfold: "emult_merge binop Ai Ax Bi Bx pA pA_end pB pB_end =
                    emult_merge binop Ai Ax Bi Bx (pA + 1) pA_end pB pB_end"
        using True lt
        by (subst emult_merge.simps) (simp add: iA_def iB_def Let_def)
      have IH: "set (emult_merge binop Ai Ax Bi Bx (pA + 1) pA_end pB pB_end) = ?I (pA + 1) pB \<and>
         sorted_wrt (<) (map fst (emult_merge binop Ai Ax Bi Bx (pA + 1) pA_end pB pB_end))"
        using "1.IH"(1)[OF True iA_def iB_def _ incA' incB] lt by simp
      have "?I pA pB = ?I (pA + 1) pB"
      proof (intro set_eqI iffI)
        fix x assume "x \<in> ?I pA pB"
        then obtain i c where x: "x = (i, c)" and "(i, c) \<in> ?I pA pB" by (cases x) auto
        then obtain p q where pq: "pA \<le> p" "p < pA_end" "pB \<le> q" "q < pB_end"
          "Ai ! nat p = i" "Bi ! nat q = i" "c = binop (Ax ! nat p) (Bx ! nat q)"
          by (auto simp: intersection_iff)
        have "iB \<le> Bi ! nat q" using Bgt[of q] pq by (cases "q = pB") (auto simp: iB_def)
        then have "p \<noteq> pA" using lt pq by (auto simp: iA_def)
        then have "pA + 1 \<le> p" using pq by simp
        then show "x \<in> ?I (pA + 1) pB" using pq x by (auto simp: intersection_iff)
      next
        fix x assume "x \<in> ?I (pA + 1) pB"
        then show "x \<in> ?I pA pB"
          by (rule intersection_mono[rotated 2]) auto
      qed
      then show ?thesis using IH unfold by simp
    next
      case gt
      have unfold: "emult_merge binop Ai Ax Bi Bx pA pA_end pB pB_end =
                    emult_merge binop Ai Ax Bi Bx pA pA_end (pB + 1) pB_end"
        using True gt
        by (subst emult_merge.simps) (simp add: iA_def iB_def Let_def)
      have IH: "set (emult_merge binop Ai Ax Bi Bx pA pA_end (pB + 1) pB_end) = ?I pA (pB + 1) \<and>
         sorted_wrt (<) (map fst (emult_merge binop Ai Ax Bi Bx pA pA_end (pB + 1) pB_end))"
        using "1.IH"(2)[OF True iA_def iB_def _ _ incA incB'] gt by simp
      have "?I pA pB = ?I pA (pB + 1)"
      proof (intro set_eqI iffI)
        fix x assume "x \<in> ?I pA pB"
        then obtain i c where x: "x = (i, c)" and "(i, c) \<in> ?I pA pB" by (cases x) auto
        then obtain p q where pq: "pA \<le> p" "p < pA_end" "pB \<le> q" "q < pB_end"
          "Ai ! nat p = i" "Bi ! nat q = i" "c = binop (Ax ! nat p) (Bx ! nat q)"
          by (auto simp: intersection_iff)
        have "iA \<le> Ai ! nat p" using Agt[of p] pq by (cases "p = pA") (auto simp: iA_def)
        then have "q \<noteq> pB" using gt pq by (auto simp: iB_def)
        then have "pB + 1 \<le> q" using pq by simp
        then show "x \<in> ?I pA (pB + 1)" using pq x by (auto simp: intersection_iff)
      next
        fix x assume "x \<in> ?I pA (pB + 1)"
        then show "x \<in> ?I pA pB"
          by (rule intersection_mono[rotated 2]) auto
      qed
      then show ?thesis using IH unfold by simp
    next
      case eq
      let ?e = "(iB, binop (Ax ! nat pA) (Bx ! nat pB))"
      have unfold: "emult_merge binop Ai Ax Bi Bx pA pA_end pB pB_end =
                    ?e # emult_merge binop Ai Ax Bi Bx (pA + 1) pA_end (pB + 1) pB_end"
        using True eq
        by (subst emult_merge.simps) (simp add: iA_def iB_def Let_def)
      have IH: "set (emult_merge binop Ai Ax Bi Bx (pA + 1) pA_end (pB + 1) pB_end)
                  = ?I (pA + 1) (pB + 1) \<and>
         sorted_wrt (<) (map fst (emult_merge binop Ai Ax Bi Bx (pA + 1) pA_end (pB + 1) pB_end))"
        using "1.IH"(3)[OF True iA_def iB_def _ _ incA' incB'] eq by simp
      have split: "?I pA pB = insert ?e (?I (pA + 1) (pB + 1))"
      proof (intro set_eqI iffI)
        fix x assume "x \<in> ?I pA pB"
        then obtain i c where x: "x = (i, c)" and "(i, c) \<in> ?I pA pB" by (cases x) auto
        then obtain p q where pq: "pA \<le> p" "p < pA_end" "pB \<le> q" "q < pB_end"
          "Ai ! nat p = i" "Bi ! nat q = i" "c = binop (Ax ! nat p) (Bx ! nat q)"
          by (auto simp: intersection_iff)
        show "x \<in> insert ?e (?I (pA + 1) (pB + 1))"
        proof (cases "p = pA")
          case True
          then have "q = pB" using Bgt[of q] pq eq by (cases "q = pB") (auto simp: iA_def)
          then show ?thesis using True pq x by (simp add: iB_def)
        next
          case False
          then have p': "pA + 1 \<le> p" using pq by simp
          then have "q \<noteq> pB" using Agt[of p] pq eq by (auto simp: iB_def)
          then have "pB + 1 \<le> q" using pq by simp
          then show ?thesis using p' pq x by (auto simp: intersection_iff)
        qed
      next
        fix x assume "x \<in> insert ?e (?I (pA + 1) (pB + 1))"
        then consider "x = ?e" | "x \<in> ?I (pA + 1) (pB + 1)" by auto
        then show "x \<in> ?I pA pB"
        proof cases
          case 1
          have "pA \<le> pA \<and> pA < pA_end \<and> pB \<le> pB \<and> pB < pB_end \<and> Ai ! nat pA = iB \<and>
                Bi ! nat pB = iB \<and> True \<and>
                binop (Ax ! nat pA) (Bx ! nat pB) = binop (Ax ! nat pA) (Bx ! nat pB)"
            using True eq by (simp add: iA_def iB_def)
          then have "(iB, binop (Ax ! nat pA) (Bx ! nat pB)) \<in> ?I pA pB"
            unfolding intersection_iff by blast
          then show ?thesis using 1 by simp
        next
          case 2
          then show ?thesis by (rule intersection_mono[rotated 2]) auto
        qed
      qed
      have "\<forall>x \<in> set (emult_merge binop Ai Ax Bi Bx (pA + 1) pA_end (pB + 1) pB_end). iB < fst x"
      proof
        fix x assume "x \<in> set (emult_merge binop Ai Ax Bi Bx (pA + 1) pA_end (pB + 1) pB_end)"
        then have "x \<in> ?I (pA + 1) (pB + 1)" using IH by simp
        from intersection_fst[OF this] obtain q where "pB + 1 \<le> q" "q < pB_end" "Bi ! nat q = fst x"
          by blast
        then show "iB < fst x" using Bgt[of q] by simp
      qed
      then show ?thesis using IH unfold split by simp
    qed
  qed
qed

lemma intersection_empty:
  "ha \<le> la \<or> hb \<le> lb \<Longrightarrow>
     emult_intersection binop m (vec_entries Ai Ax la ha) (vec_entries Bi Bx lb hb) = {}"
  by (auto simp: emult_intersection_def vec_entries_def)

lemma intersectionI:
  assumes "la \<le> p \<and> p < ha \<and> lb \<le> q \<and> q < hb \<and> Ai ! nat p = j \<and> Bi ! nat q = j \<and> m j \<and>
           c = binop (Ax ! nat p) (Bx ! nat q) \<and> x = (j, c)"
  shows "x \<in> emult_intersection binop m (vec_entries Ai Ax la ha) (vec_entries Bi Bx lb hb)"
proof -
  have "(j, c) \<in> emult_intersection binop m (vec_entries Ai Ax la ha) (vec_entries Bi Bx lb hb)"
    unfolding intersection_iff using assms by blast
  then show ?thesis using assms by simp
qed

lemma search_A_intersection:
  assumes "increasing_on Ai pA pA_end" and "increasing_on Bi pB pB_end" and "pA < pA_end"
  shows "set (emult_search_A binop Ai Ax Bi Bx pA pA_end pB pB_end) =
           emult_intersection binop (\<lambda>i. True) (vec_entries Ai Ax pA pA_end)
             (vec_entries Bi Bx pB pB_end) \<and>
         sorted_wrt (<) (map fst (emult_search_A binop Ai Ax Bi Bx pA pA_end pB pB_end))"
  using assms
proof (induction binop Ai Ax Bi Bx pA pA_end pB pB_end rule: emult_search_A.induct)
  case (1 binop Ai Ax Bi Bx pA pA_end pB pB_end)
  let ?I = "\<lambda>a b. emult_intersection binop (\<lambda>i. True) (vec_entries Ai Ax a pA_end)
             (vec_entries Bi Bx b pB_end)"
  note incA = "1.prems"(1) and incB = "1.prems"(2) and ne = "1.prems"(3)
  show ?case
  proof (cases "pB < pB_end")
    case False
    then have "emult_search_A binop Ai Ax Bi Bx pA pA_end pB pB_end = []"
      by (subst emult_search_A.simps) auto
    moreover have "?I pA pB = {}" using False by (intro intersection_empty) simp
    ultimately show ?thesis by simp
  next
    case True
    define i where "i = Bi ! nat pB"
    obtain pl found where bs: "GB_BINARY_SEARCH i Ai pA (pA_end - 1) = (pl, found)"
      by (cases "GB_BINARY_SEARCH i Ai pA (pA_end - 1)")
    have "increasing_on Ai pA (pA_end - 1 + 1)" using incA by simp
    from binary_search[OF this _ bs] ne
    have pl: "pA \<le> pl" "pl < pA_end" "found \<longleftrightarrow> Ai ! nat pl = i"
      and below: "\<And>p. pA \<le> p \<Longrightarrow> p < pl \<Longrightarrow> Ai ! nat p < i"
      and above: "\<And>p. pl < p \<Longrightarrow> p < pA_end \<Longrightarrow> i < Ai ! nat p"
      by auto
    have incA': "increasing_on Ai pl pA_end" using incA pl by (auto intro: increasing_on_sub)
    have incB': "increasing_on Bi (pB + 1) pB_end" using incB by (auto intro: increasing_on_sub)
    have Bgt: "\<And>q. pB < q \<Longrightarrow> q < pB_end \<Longrightarrow> i < Bi ! nat q"
      using increasing_onD[OF incB, of pB] by (simp add: i_def)
    let ?rest = "emult_search_A binop Ai Ax Bi Bx pl pA_end (pB + 1) pB_end"
    have IH: "set ?rest = ?I pl (pB + 1) \<and> sorted_wrt (<) (map fst ?rest)"
    proof (cases found)
      case True
      show ?thesis
        using "1.IH"(1)[OF \<open>pB < pB_end\<close> i_def refl bs[symmetric] True incA' incB' pl(2)] .
    next
      case False
      show ?thesis
        using "1.IH"(2)[OF \<open>pB < pB_end\<close> i_def refl bs[symmetric] False incA' incB' pl(2)] .
    qed
    have rest_gt: "\<forall>x \<in> set ?rest. i < fst x"
    proof
      fix x assume "x \<in> set ?rest"
      then have "x \<in> ?I pl (pB + 1)" using IH by simp
      from intersection_fst[OF this] obtain q where "pB + 1 \<le> q" "q < pB_end" "Bi ! nat q = fst x"
        by blast
      then show "i < fst x" using Bgt[of q] by simp
    qed
    have shrink: "?I pA (pB + 1) = ?I pl (pB + 1)"
    proof (intro set_eqI iffI)
      fix x assume "x \<in> ?I pA (pB + 1)"
      then obtain j c where x: "x = (j, c)" and "(j, c) \<in> ?I pA (pB + 1)" by (cases x) auto
      then obtain p q where pq: "pA \<le> p" "p < pA_end" "pB + 1 \<le> q" "q < pB_end"
        "Ai ! nat p = j" "Bi ! nat q = j" "c = binop (Ax ! nat p) (Bx ! nat q)"
        by (auto simp: intersection_iff)
      have "i < j" using Bgt[of q] pq by simp
      then have "pl \<le> p" using below[of p] pq by force
      then show "x \<in> ?I pl (pB + 1)"
        using pq x by (intro intersectionI[where p = p and q = q and j = j and c = c]) simp
    next
      fix x assume "x \<in> ?I pl (pB + 1)"
      then show "x \<in> ?I pA (pB + 1)"
        by (rule intersection_mono[rotated 2]) (simp_all add: pl(1))
    qed
    show ?thesis
    proof (cases found)
      case True
      let ?e = "(i, binop (Ax ! nat pl) (Bx ! nat pB))"
      have unfold: "emult_search_A binop Ai Ax Bi Bx pA pA_end pB pB_end = ?e # ?rest"
        using \<open>pB < pB_end\<close> True bs
        by (subst emult_search_A.simps) (simp add: i_def Let_def)
      have split: "?I pA pB = insert ?e (?I pA (pB + 1))"
      proof (intro set_eqI iffI)
        fix x assume "x \<in> ?I pA pB"
        then obtain j c where x: "x = (j, c)" and "(j, c) \<in> ?I pA pB" by (cases x) auto
        then obtain p q where pq: "pA \<le> p" "p < pA_end" "pB \<le> q" "q < pB_end"
          "Ai ! nat p = j" "Bi ! nat q = j" "c = binop (Ax ! nat p) (Bx ! nat q)"
          by (auto simp: intersection_iff)
        show "x \<in> insert ?e (?I pA (pB + 1))"
        proof (cases "q = pB")
          case qB: True
          then have "Ai ! nat p = i" using pq by (simp add: i_def)
          then have "p = pl" using below[of p] above[of p] pq by force
          then show ?thesis using qB pq x by (simp add: i_def)
        next
          case False
          then have "pB + 1 \<le> q" using pq by simp
          then have "x \<in> ?I pA (pB + 1)"
            using pq x by (intro intersectionI[where p = p and q = q and j = j and c = c]) simp
          then show ?thesis by simp
        qed
      next
        fix x assume "x \<in> insert ?e (?I pA (pB + 1))"
        then consider "x = ?e" | "x \<in> ?I pA (pB + 1)" by auto
        then show "x \<in> ?I pA pB"
        proof cases
          case 1
          show ?thesis
            using \<open>pB < pB_end\<close> True pl 1
            by (intro intersectionI[where p = pl and q = pB and j = i
                  and c = "binop (Ax ! nat pl) (Bx ! nat pB)"]) (simp add: i_def)
        next
          case 2
          then show ?thesis by (rule intersection_mono[rotated 2]) auto
        qed
      qed
      show ?thesis using IH unfold split shrink rest_gt by simp
    next
      case False
      have unfold: "emult_search_A binop Ai Ax Bi Bx pA pA_end pB pB_end = ?rest"
        using \<open>pB < pB_end\<close> False bs
        by (subst emult_search_A.simps) (simp add: i_def Let_def)
      have "?I pA pB = ?I pA (pB + 1)"
      proof (intro set_eqI iffI)
        fix x assume "x \<in> ?I pA pB"
        then obtain j c where x: "x = (j, c)" and "(j, c) \<in> ?I pA pB" by (cases x) auto
        then obtain p q where pq: "pA \<le> p" "p < pA_end" "pB \<le> q" "q < pB_end"
          "Ai ! nat p = j" "Bi ! nat q = j" "c = binop (Ax ! nat p) (Bx ! nat q)"
          by (auto simp: intersection_iff)
        have "q \<noteq> pB"
        proof
          assume "q = pB"
          then have "Ai ! nat p = i" using pq by (simp add: i_def)
          then have "p = pl" using below[of p] above[of p] pq by force
          then show False using False pl(3) \<open>Ai ! nat p = i\<close> by simp
        qed
        then have "pB + 1 \<le> q" using pq by simp
        then show "x \<in> ?I pA (pB + 1)"
          using pq x by (intro intersectionI[where p = p and q = q and j = j and c = c]) simp
      next
        fix x assume "x \<in> ?I pA (pB + 1)"
        then show "x \<in> ?I pA pB" by (rule intersection_mono[rotated 2]) auto
      qed
      then show ?thesis using IH unfold shrink by simp
    qed
  qed
qed

lemma search_B_intersection:
  assumes "increasing_on Ai pA pA_end" and "increasing_on Bi pB pB_end" and "pB < pB_end"
  shows "set (emult_search_B binop Ai Ax Bi Bx pA pA_end pB pB_end) =
           emult_intersection binop (\<lambda>i. True) (vec_entries Ai Ax pA pA_end)
             (vec_entries Bi Bx pB pB_end) \<and>
         sorted_wrt (<) (map fst (emult_search_B binop Ai Ax Bi Bx pA pA_end pB pB_end))"
  using assms
proof (induction binop Ai Ax Bi Bx pA pA_end pB pB_end rule: emult_search_B.induct)
  case (1 binop Ai Ax Bi Bx pA pA_end pB pB_end)
  let ?I = "\<lambda>a b. emult_intersection binop (\<lambda>i. True) (vec_entries Ai Ax a pA_end)
             (vec_entries Bi Bx b pB_end)"
  note incA = "1.prems"(1) and incB = "1.prems"(2) and ne = "1.prems"(3)
  show ?case
  proof (cases "pA < pA_end")
    case False
    then have "emult_search_B binop Ai Ax Bi Bx pA pA_end pB pB_end = []"
      by (subst emult_search_B.simps) auto
    moreover have "?I pA pB = {}" using False by (intro intersection_empty) simp
    ultimately show ?thesis by simp
  next
    case True
    define i where "i = Ai ! nat pA"
    obtain pl found where bs: "GB_BINARY_SEARCH i Bi pB (pB_end - 1) = (pl, found)"
      by (cases "GB_BINARY_SEARCH i Bi pB (pB_end - 1)")
    have "increasing_on Bi pB (pB_end - 1 + 1)" using incB by simp
    from binary_search[OF this _ bs] ne
    have pl: "pB \<le> pl" "pl < pB_end" "found \<longleftrightarrow> Bi ! nat pl = i"
      and below: "\<And>q. pB \<le> q \<Longrightarrow> q < pl \<Longrightarrow> Bi ! nat q < i"
      and above: "\<And>q. pl < q \<Longrightarrow> q < pB_end \<Longrightarrow> i < Bi ! nat q"
      by auto
    have incB': "increasing_on Bi pl pB_end" using incB pl by (auto intro: increasing_on_sub)
    have incA': "increasing_on Ai (pA + 1) pA_end" using incA by (auto intro: increasing_on_sub)
    have Agt: "\<And>p. pA < p \<Longrightarrow> p < pA_end \<Longrightarrow> i < Ai ! nat p"
      using increasing_onD[OF incA, of pA] by (simp add: i_def)
    let ?rest = "emult_search_B binop Ai Ax Bi Bx (pA + 1) pA_end pl pB_end"
    have IH: "set ?rest = ?I (pA + 1) pl \<and> sorted_wrt (<) (map fst ?rest)"
    proof (cases found)
      case True
      show ?thesis
        using "1.IH"(1)[OF \<open>pA < pA_end\<close> i_def refl bs[symmetric] True incA' incB' pl(2)] .
    next
      case False
      show ?thesis
        using "1.IH"(2)[OF \<open>pA < pA_end\<close> i_def refl bs[symmetric] False incA' incB' pl(2)] .
    qed
    have rest_gt: "\<forall>x \<in> set ?rest. i < fst x"
    proof
      fix x assume "x \<in> set ?rest"
      then have "x \<in> ?I (pA + 1) pl" using IH by simp
      from intersection_fst[OF this] obtain p where "pA + 1 \<le> p" "p < pA_end" "Ai ! nat p = fst x"
        by blast
      then show "i < fst x" using Agt[of p] by simp
    qed
    have shrink: "?I (pA + 1) pB = ?I (pA + 1) pl"
    proof (intro set_eqI iffI)
      fix x assume "x \<in> ?I (pA + 1) pB"
      then obtain j c where x: "x = (j, c)" and "(j, c) \<in> ?I (pA + 1) pB" by (cases x) auto
      then obtain p q where pq: "pA + 1 \<le> p" "p < pA_end" "pB \<le> q" "q < pB_end"
        "Ai ! nat p = j" "Bi ! nat q = j" "c = binop (Ax ! nat p) (Bx ! nat q)"
        by (auto simp: intersection_iff)
      have "i < j" using Agt[of p] pq by simp
      then have "pl \<le> q" using below[of q] pq by force
      then show "x \<in> ?I (pA + 1) pl"
        using pq x by (intro intersectionI[where p = p and q = q and j = j and c = c]) simp
    next
      fix x assume "x \<in> ?I (pA + 1) pl"
      then show "x \<in> ?I (pA + 1) pB"
        by (rule intersection_mono[rotated 2]) (simp_all add: pl(1))
    qed
    show ?thesis
    proof (cases found)
      case True
      let ?e = "(i, binop (Ax ! nat pA) (Bx ! nat pl))"
      have unfold: "emult_search_B binop Ai Ax Bi Bx pA pA_end pB pB_end = ?e # ?rest"
        using \<open>pA < pA_end\<close> True bs
        by (subst emult_search_B.simps) (simp add: i_def Let_def)
      have split: "?I pA pB = insert ?e (?I (pA + 1) pB)"
      proof (intro set_eqI iffI)
        fix x assume "x \<in> ?I pA pB"
        then obtain j c where x: "x = (j, c)" and "(j, c) \<in> ?I pA pB" by (cases x) auto
        then obtain p q where pq: "pA \<le> p" "p < pA_end" "pB \<le> q" "q < pB_end"
          "Ai ! nat p = j" "Bi ! nat q = j" "c = binop (Ax ! nat p) (Bx ! nat q)"
          by (auto simp: intersection_iff)
        show "x \<in> insert ?e (?I (pA + 1) pB)"
        proof (cases "p = pA")
          case pA: True
          then have "Bi ! nat q = i" using pq by (simp add: i_def)
          then have "q = pl" using below[of q] above[of q] pq by force
          then show ?thesis using pA pq x by (simp add: i_def)
        next
          case False
          then have "pA + 1 \<le> p" using pq by simp
          then have "x \<in> ?I (pA + 1) pB"
            using pq x by (intro intersectionI[where p = p and q = q and j = j and c = c]) simp
          then show ?thesis by simp
        qed
      next
        fix x assume "x \<in> insert ?e (?I (pA + 1) pB)"
        then consider "x = ?e" | "x \<in> ?I (pA + 1) pB" by auto
        then show "x \<in> ?I pA pB"
        proof cases
          case 1
          show ?thesis
            using \<open>pA < pA_end\<close> True pl 1
            by (intro intersectionI[where p = pA and q = pl and j = i
                  and c = "binop (Ax ! nat pA) (Bx ! nat pl)"]) (simp add: i_def)
        next
          case 2
          then show ?thesis by (rule intersection_mono[rotated 2]) auto
        qed
      qed
      show ?thesis using IH unfold split shrink rest_gt by simp
    next
      case False
      have unfold: "emult_search_B binop Ai Ax Bi Bx pA pA_end pB pB_end = ?rest"
        using \<open>pA < pA_end\<close> False bs
        by (subst emult_search_B.simps) (simp add: i_def Let_def)
      have "?I pA pB = ?I (pA + 1) pB"
      proof (intro set_eqI iffI)
        fix x assume "x \<in> ?I pA pB"
        then obtain j c where x: "x = (j, c)" and "(j, c) \<in> ?I pA pB" by (cases x) auto
        then obtain p q where pq: "pA \<le> p" "p < pA_end" "pB \<le> q" "q < pB_end"
          "Ai ! nat p = j" "Bi ! nat q = j" "c = binop (Ax ! nat p) (Bx ! nat q)"
          by (auto simp: intersection_iff)
        have "p \<noteq> pA"
        proof
          assume "p = pA"
          then have "Bi ! nat q = i" using pq by (simp add: i_def)
          then have "q = pl" using below[of q] above[of q] pq by force
          then show False using False pl(3) \<open>Bi ! nat q = i\<close> by simp
        qed
        then have "pA + 1 \<le> p" using pq by simp
        then show "x \<in> ?I (pA + 1) pB"
          using pq x by (intro intersectionI[where p = p and q = q and j = j and c = c]) simp
      next
        fix x assume "x \<in> ?I (pA + 1) pB"
        then show "x \<in> ?I pA pB" by (rule intersection_mono[rotated 2]) auto
      qed
      then show ?thesis using IH unfold shrink by simp
    qed
  qed
qed

lemma vector_okD:
  assumes "vector_ok Xi nx lo hi ifirst len"
  shows "increasing_on Xi lo hi"
    and "\<And>p. lo \<le> p \<Longrightarrow> p < hi \<Longrightarrow> ifirst \<le> Xi ! nat p \<and> Xi ! nat p < ifirst + len"
    and "lo < hi \<Longrightarrow> 0 \<le> lo"
  using assms by (auto simp: vector_ok_def)

lemma dense_lower:
  assumes "vector_ok Xi nx lo hi ifirst len" and "lo + int k < hi"
  shows "ifirst + int k \<le> Xi ! nat (lo + int k)"
  using assms(2)
proof (induction k)
  case 0
  then show ?case using vector_okD(2)[OF assms(1), of lo] by simp
next
  case (Suc k)
  have "Xi ! nat (lo + int k) < Xi ! nat (lo + int (Suc k))"
    using increasing_onD[OF vector_okD(1)[OF assms(1)], of "lo + int k" "lo + int (Suc k)"] Suc.prems
    by simp
  moreover have "ifirst + int k \<le> Xi ! nat (lo + int k)" using Suc by simp
  ultimately show ?case by simp
qed

lemma dense_upper:
  assumes "vector_ok Xi nx lo hi ifirst len" and "hi - lo = len" and "lo \<le> hi - 1 - int m"
  shows "Xi ! nat (hi - 1 - int m) \<le> ifirst + len - 1 - int m"
  using assms(3)
proof (induction m)
  case 0
  then show ?case using vector_okD(2)[OF assms(1), of "hi - 1"] by simp
next
  case (Suc m)
  have "Xi ! nat (hi - 1 - int (Suc m)) < Xi ! nat (hi - 1 - int m)"
    using increasing_onD[OF vector_okD(1)[OF assms(1)], of "hi - 1 - int (Suc m)" "hi - 1 - int m"]
      Suc.prems by simp
  moreover have "Xi ! nat (hi - 1 - int m) \<le> ifirst + len - 1 - int m" using Suc by simp
  ultimately show ?case by simp
qed

lemma dense_index:
  assumes "vector_ok Xi nx lo hi ifirst len" and "hi - lo = len" and "lo \<le> p" and "p < hi"
  shows "Xi ! nat p = ifirst + (p - lo)"
proof -
  have "ifirst + int (nat (p - lo)) \<le> Xi ! nat (lo + int (nat (p - lo)))"
    using assms(3,4) by (intro dense_lower[OF assms(1)]) simp
  then have lower: "ifirst + (p - lo) \<le> Xi ! nat p" using assms(3) by simp
  have "Xi ! nat (hi - 1 - int (nat (hi - 1 - p))) \<le> ifirst + len - 1 - int (nat (hi - 1 - p))"
    using assms(3,4) by (intro dense_upper[OF assms(1,2)]) simp
  then have upper: "Xi ! nat p \<le> ifirst + (p - lo)" using assms(2,4) by simp
  from lower upper show ?thesis by simp
qed

lemma dense_dense_intersection:
  assumes A: "vector_ok Ai na pA pA_end ifirst len" and B: "vector_ok Bi nb pB pB_end ifirst len"
    and dA: "pA_end - pA = len" and dB: "pB_end - pB = len" and pos: "0 < len"
  shows "set (emult_dense_dense binop Ax Bx pA pB (pA_end - pA) (Ai ! nat pA)) =
           emult_intersection binop (\<lambda>i. True) (vec_entries Ai Ax pA pA_end)
             (vec_entries Bi Bx pB pB_end) \<and>
         sorted_wrt (<) (map fst (emult_dense_dense binop Ax Bx pA pB (pA_end - pA) (Ai ! nat pA)))"
proof -
  have first: "Ai ! nat pA = ifirst"
    using dense_index[OF A dA, of pA] dA pos by simp
  have idxA: "\<And>p. pA \<le> p \<Longrightarrow> p < pA_end \<Longrightarrow> Ai ! nat p = ifirst + (p - pA)"
    using dense_index[OF A dA] by simp
  have idxB: "\<And>q. pB \<le> q \<Longrightarrow> q < pB_end \<Longrightarrow> Bi ! nat q = ifirst + (q - pB)"
    using dense_index[OF B dB] by simp
  let ?out = "emult_dense_dense binop Ax Bx pA pB (pA_end - pA) (Ai ! nat pA)"
  let ?I = "emult_intersection binop (\<lambda>i. True) (vec_entries Ai Ax pA pA_end)
             (vec_entries Bi Bx pB pB_end)"
  have out: "?out = map (\<lambda>p. (p + ifirst, binop (Ax ! nat (pA + p)) (Bx ! nat (pB + p))))
                     [0 .. len - 1]"
    by (simp add: emult_dense_dense_def first dA)
  have "set ?out = ?I"
  proof (intro set_eqI iffI)
    fix x assume "x \<in> set ?out"
    then obtain p where p: "0 \<le> p" "p \<le> len - 1"
      "x = (p + ifirst, binop (Ax ! nat (pA + p)) (Bx ! nat (pB + p)))"
      unfolding out by auto
    show "x \<in> ?I"
      using p idxA[of "pA + p"] idxB[of "pB + p"] dA dB
      by (intro intersectionI[where p = "pA + p" and q = "pB + p" and j = "p + ifirst"
            and c = "binop (Ax ! nat (pA + p)) (Bx ! nat (pB + p))"]) simp
  next
    fix x assume "x \<in> ?I"
    then obtain j c where x: "x = (j, c)" and "(j, c) \<in> ?I" by (cases x) auto
    then obtain p q where pq: "pA \<le> p" "p < pA_end" "pB \<le> q" "q < pB_end"
      "Ai ! nat p = j" "Bi ! nat q = j" "c = binop (Ax ! nat p) (Bx ! nat q)"
      by (auto simp: intersection_iff)
    define t where "t = j - ifirst"
    have "p = pA + t" "q = pB + t" using idxA[of p] idxB[of q] pq by (auto simp: t_def)
    moreover have "0 \<le> t" "t \<le> len - 1" "j = t + ifirst"
      using idxA[of p] pq dA by (auto simp: t_def)
    ultimately have "x = (t + ifirst, binop (Ax ! nat (pA + t)) (Bx ! nat (pB + t)))"
      "t \<in> set [0 .. len - 1]"
      using x pq(7) by simp_all
    then show "x \<in> set ?out" unfolding out by (metis (no_types, lifting) image_eqI set_map)
  qed
  moreover have "sorted_wrt (<) (map fst ?out)"
  proof -
    have "sorted_wrt (\<lambda>p q. p + ifirst < q + ifirst) [0 .. len - 1]"
      by (rule sorted_wrt_mono_rel[OF _ sorted_wrt_upto]) simp
    then show ?thesis unfolding out by (simp add: sorted_wrt_map comp_def)
  qed
  ultimately show ?thesis by simp
qed

lemma dense_sparse_intersection:
  assumes A: "vector_ok Ai na pA pA_end ifirst len" and B: "vector_ok Bi nb pB pB_end ifirst len"
    and dA: "pA_end - pA = len" and pos: "0 < len"
  shows "set (emult_dense_sparse binop Ax Bi Bx pA pB (pB_end - pB) (Ai ! nat pA)) =
           emult_intersection binop (\<lambda>i. True) (vec_entries Ai Ax pA pA_end)
             (vec_entries Bi Bx pB pB_end) \<and>
         sorted_wrt (<) (map fst (emult_dense_sparse binop Ax Bi Bx pA pB (pB_end - pB) (Ai ! nat pA)))"
proof -
  have first: "Ai ! nat pA = ifirst"
    using dense_index[OF A dA, of pA] dA pos by simp
  have idxA: "\<And>p. pA \<le> p \<Longrightarrow> p < pA_end \<Longrightarrow> Ai ! nat p = ifirst + (p - pA)"
    using dense_index[OF A dA] by simp
  note incB = vector_okD(1)[OF B] and rangeB = vector_okD(2)[OF B]
  let ?out = "emult_dense_sparse binop Ax Bi Bx pA pB (pB_end - pB) (Ai ! nat pA)"
  let ?I = "emult_intersection binop (\<lambda>i. True) (vec_entries Ai Ax pA pA_end)
             (vec_entries Bi Bx pB pB_end)"
  let ?f = "\<lambda>p. (Bi ! nat (pB + p),
                  binop (Ax ! nat (pA + Bi ! nat (pB + p) - ifirst)) (Bx ! nat (pB + p)))"
  have out: "?out = map ?f [0 .. pB_end - pB - 1]"
    by (simp add: emult_dense_sparse_def first Let_def)
  have "set ?out = ?I"
  proof (intro set_eqI iffI)
    fix x assume "x \<in> set ?out"
    then obtain p where p: "0 \<le> p" "p \<le> pB_end - pB - 1" "x = ?f p"
      unfolding out by auto
    define i where "i = Bi ! nat (pB + p)"
    have i: "ifirst \<le> i" "i < ifirst + len" using rangeB[of "pB + p"] p by (auto simp: i_def)
    have "Ai ! nat (pA + i - ifirst) = i" using idxA[of "pA + i - ifirst"] i dA by simp
    then show "x \<in> ?I"
      using p i dA
      by (intro intersectionI[where p = "pA + i - ifirst" and q = "pB + p" and j = i
            and c = "binop (Ax ! nat (pA + i - ifirst)) (Bx ! nat (pB + p))"]) (simp add: i_def)
  next
    fix x assume "x \<in> ?I"
    then obtain j c where x: "x = (j, c)" and "(j, c) \<in> ?I" by (cases x) auto
    then obtain p q where pq: "pA \<le> p" "p < pA_end" "pB \<le> q" "q < pB_end"
      "Ai ! nat p = j" "Bi ! nat q = j" "c = binop (Ax ! nat p) (Bx ! nat q)"
      by (auto simp: intersection_iff)
    have p: "p = pA + j - ifirst" using idxA[of p] pq by auto
    have "x = ?f (q - pB)" using x pq p by simp
    moreover have "q - pB \<in> set [0 .. pB_end - pB - 1]" using pq by simp
    ultimately show "x \<in> set ?out" unfolding out by (metis (no_types, lifting) image_eqI set_map)
  qed
  moreover have "sorted_wrt (<) (map fst ?out)"
  proof -
    have "sorted_wrt (\<lambda>p q. Bi ! nat (pB + p) < Bi ! nat (pB + q)) [0 .. pB_end - pB - 1]"
    proof (rule sorted_wrt_mono_rel[OF _ sorted_wrt_upto])
      fix p q assume "p \<in> set [0 .. pB_end - pB - 1]" "q \<in> set [0 .. pB_end - pB - 1]" "p < q"
      then show "Bi ! nat (pB + p) < Bi ! nat (pB + q)"
        using increasing_onD[OF incB, of "pB + p" "pB + q"] by simp
    qed
    then show ?thesis unfolding out by (simp add: sorted_wrt_map comp_def)
  qed
  ultimately show ?thesis by simp
qed

lemma sparse_dense_intersection:
  assumes A: "vector_ok Ai na pA pA_end ifirst len" and B: "vector_ok Bi nb pB pB_end ifirst len"
    and dB: "pB_end - pB = len" and pos: "0 < len"
  shows "set (emult_sparse_dense binop Ai Ax Bx pA pB (pA_end - pA) (Bi ! nat pB)) =
           emult_intersection binop (\<lambda>i. True) (vec_entries Ai Ax pA pA_end)
             (vec_entries Bi Bx pB pB_end) \<and>
         sorted_wrt (<) (map fst (emult_sparse_dense binop Ai Ax Bx pA pB (pA_end - pA) (Bi ! nat pB)))"
proof -
  have first: "Bi ! nat pB = ifirst"
    using dense_index[OF B dB, of pB] dB pos by simp
  have idxB: "\<And>q. pB \<le> q \<Longrightarrow> q < pB_end \<Longrightarrow> Bi ! nat q = ifirst + (q - pB)"
    using dense_index[OF B dB] by simp
  note incA = vector_okD(1)[OF A] and rangeA = vector_okD(2)[OF A]
  let ?out = "emult_sparse_dense binop Ai Ax Bx pA pB (pA_end - pA) (Bi ! nat pB)"
  let ?I = "emult_intersection binop (\<lambda>i. True) (vec_entries Ai Ax pA pA_end)
             (vec_entries Bi Bx pB pB_end)"
  let ?f = "\<lambda>p. (Ai ! nat (pA + p),
                  binop (Ax ! nat (pA + p)) (Bx ! nat (pB + Ai ! nat (pA + p) - ifirst)))"
  have out: "?out = map ?f [0 .. pA_end - pA - 1]"
    by (simp add: emult_sparse_dense_def first Let_def)
  have "set ?out = ?I"
  proof (intro set_eqI iffI)
    fix x assume "x \<in> set ?out"
    then obtain p where p: "0 \<le> p" "p \<le> pA_end - pA - 1" "x = ?f p"
      unfolding out by auto
    define i where "i = Ai ! nat (pA + p)"
    have i: "ifirst \<le> i" "i < ifirst + len" using rangeA[of "pA + p"] p by (auto simp: i_def)
    have "Bi ! nat (pB + i - ifirst) = i" using idxB[of "pB + i - ifirst"] i dB by simp
    then show "x \<in> ?I"
      using p i dB
      by (intro intersectionI[where p = "pA + p" and q = "pB + i - ifirst" and j = i
            and c = "binop (Ax ! nat (pA + p)) (Bx ! nat (pB + i - ifirst))"]) (simp add: i_def)
  next
    fix x assume "x \<in> ?I"
    then obtain j c where x: "x = (j, c)" and "(j, c) \<in> ?I" by (cases x) auto
    then obtain p q where pq: "pA \<le> p" "p < pA_end" "pB \<le> q" "q < pB_end"
      "Ai ! nat p = j" "Bi ! nat q = j" "c = binop (Ax ! nat p) (Bx ! nat q)"
      by (auto simp: intersection_iff)
    have q: "q = pB + j - ifirst" using idxB[of q] pq by auto
    have "x = ?f (p - pA)" using x pq q by simp
    moreover have "p - pA \<in> set [0 .. pA_end - pA - 1]" using pq by simp
    ultimately show "x \<in> set ?out" unfolding out by (metis (no_types, lifting) image_eqI set_map)
  qed
  moreover have "sorted_wrt (<) (map fst ?out)"
  proof -
    have "sorted_wrt (\<lambda>p q. Ai ! nat (pA + p) < Ai ! nat (pA + q)) [0 .. pA_end - pA - 1]"
    proof (rule sorted_wrt_mono_rel[OF _ sorted_wrt_upto])
      fix p q assume "p \<in> set [0 .. pA_end - pA - 1]" "q \<in> set [0 .. pA_end - pA - 1]" "p < q"
      then show "Ai ! nat (pA + p) < Ai ! nat (pA + q)"
        using increasing_onD[OF incA, of "pA + p" "pA + q"] by simp
    qed
    then show ?thesis unfolding out by (simp add: sorted_wrt_map comp_def)
  qed
  ultimately show ?thesis by simp
qed

lemma mask_lookup:
  assumes ok: "vector_ok Xi nx lo hi ifirst len" and ne: "lo < hi"
    and dense: "dense \<longleftrightarrow> hi - lo = len" and i: "ifirst \<le> i" "i < ifirst + len"
    and look: "(if dense then (lo + i - Xi ! nat lo, True)
                else GB_BINARY_SEARCH i Xi pX (hi - 1)) = (pl, found)"
    and inv: "\<not> dense \<longrightarrow> lo \<le> pX \<and> pX < hi \<and> (\<forall>p. lo \<le> p \<and> p < pX \<longrightarrow> Xi ! nat p < i)"
  shows "found \<longleftrightarrow> (\<exists>p. lo \<le> p \<and> p < hi \<and> Xi ! nat p = i)"
    and "found \<longrightarrow> lo \<le> pl \<and> pl < hi \<and> Xi ! nat pl = i"
    and "\<not> dense \<longrightarrow> lo \<le> pl \<and> pl < hi \<and> (\<forall>p. lo \<le> p \<and> p < pl \<longrightarrow> Xi ! nat p < i)"
proof -
  note inc = vector_okD(1)[OF ok]
  have all: "(found \<longleftrightarrow> (\<exists>p. lo \<le> p \<and> p < hi \<and> Xi ! nat p = i)) \<and>
             (found \<longrightarrow> lo \<le> pl \<and> pl < hi \<and> Xi ! nat pl = i) \<and>
             (\<not> dense \<longrightarrow> lo \<le> pl \<and> pl < hi \<and> (\<forall>p. lo \<le> p \<and> p < pl \<longrightarrow> Xi ! nat p < i))"
  proof (cases dense)
    case True
    then have d: "hi - lo = len" using dense by simp
    have "Xi ! nat lo = ifirst" using dense_index[OF ok d, of lo] ne by simp
    then have pl: "pl = lo + i - ifirst" "found" using look True by auto
    have at: "Xi ! nat (lo + i - ifirst) = i"
      using dense_index[OF ok d, of "lo + i - ifirst"] i d by simp
    then have e: "\<exists>p. lo \<le> p \<and> p < hi \<and> Xi ! nat p = i"
      using i d by (intro exI[where x = "lo + i - ifirst"]) simp
    show ?thesis using pl True i d e at by simp
  next
    case False
    then have bs: "GB_BINARY_SEARCH i Xi pX (hi - 1) = (pl, found)" using look by simp
    from inv False have pX: "lo \<le> pX" "pX < hi"
      and before: "\<And>p. lo \<le> p \<Longrightarrow> p < pX \<Longrightarrow> Xi ! nat p < i"
      by auto
    have "increasing_on Xi pX (hi - 1 + 1)" using inc pX by (auto intro: increasing_on_sub)
    from binary_search[OF this _ bs] pX
    have pl: "pX \<le> pl" "pl < hi" "found \<longleftrightarrow> Xi ! nat pl = i"
      and below: "\<And>p. pX \<le> p \<Longrightarrow> p < pl \<Longrightarrow> Xi ! nat p < i"
      and above: "\<And>p. pl < p \<Longrightarrow> p < hi \<Longrightarrow> i < Xi ! nat p"
      by auto
    have lt: "\<And>p. lo \<le> p \<Longrightarrow> p < pl \<Longrightarrow> Xi ! nat p < i"
    proof -
      fix p assume "lo \<le> p" "p < pl"
      then show "Xi ! nat p < i" using before[of p] below[of p] by (cases "p < pX") auto
    qed
    have "(\<exists>p. lo \<le> p \<and> p < hi \<and> Xi ! nat p = i) \<longleftrightarrow> Xi ! nat pl = i"
    proof
      assume "\<exists>p. lo \<le> p \<and> p < hi \<and> Xi ! nat p = i"
      then obtain p where p: "lo \<le> p" "p < hi" "Xi ! nat p = i" by blast
      then have "p = pl" using lt[of p] above[of p] by force
      then show "Xi ! nat pl = i" using p by simp
    next
      assume "Xi ! nat pl = i"
      then show "\<exists>p. lo \<le> p \<and> p < hi \<and> Xi ! nat p = i" using pl(1,2) pX
        by (intro exI[where x = pl]) simp
    qed
    then show ?thesis using pl pX lt False by auto
  qed
  from all show "found \<longleftrightarrow> (\<exists>p. lo \<le> p \<and> p < hi \<and> Xi ! nat p = i)" by blast
  from all show "found \<longrightarrow> lo \<le> pl \<and> pl < hi \<and> Xi ! nat pl = i" by blast
  from all show "\<not> dense \<longrightarrow> lo \<le> pl \<and> pl < hi \<and> (\<forall>p. lo \<le> p \<and> p < pl \<longrightarrow> Xi ! nat p < i)"
    by blast
qed

lemma masked_iff:
  "(j, c) \<in> emult_intersection binop
        (mask_true_at (Some \<lparr> mv_Mi = Mi, mv_Mx = Mx, mv_pM = pM, mv_pM_end = pM_end \<rparr>))
        (vec_entries Ai Ax la ha) (vec_entries Bi Bx lb hb) \<longleftrightarrow>
     (\<exists>p q r. la \<le> p \<and> p < ha \<and> lb \<le> q \<and> q < hb \<and> pM \<le> r \<and> r < pM_end \<and>
        Ai ! nat p = j \<and> Bi ! nat q = j \<and> Mi ! nat r = j \<and> GB_mcast Mx r \<and>
        c = binop (Ax ! nat p) (Bx ! nat q))"
  unfolding intersection_iff by (simp add: mask_true_at_def Bex_def) blast

lemma mask_intersection:
  assumes A: "vector_ok Ai na la ha ifirst len" and B: "vector_ok Bi nb lb hb ifirst len"
    and neA: "la < ha" and neB: "lb < hb"
  shows "increasing_on Mi pM pM_end \<Longrightarrow>
    (\<forall>r. pM \<le> r \<and> r < pM_end \<longrightarrow> ifirst \<le> Mi ! nat r \<and> Mi ! nat r < ifirst + len) \<Longrightarrow>
    (ha - la \<noteq> len \<longrightarrow> la \<le> pA \<and> pA < ha \<and>
       (\<forall>p r. la \<le> p \<and> p < pA \<and> pM \<le> r \<and> r < pM_end \<longrightarrow> Ai ! nat p < Mi ! nat r)) \<Longrightarrow>
    (hb - lb \<noteq> len \<longrightarrow> lb \<le> pB \<and> pB < hb \<and>
       (\<forall>p r. lb \<le> p \<and> p < pB \<and> pM \<le> r \<and> r < pM_end \<longrightarrow> Bi ! nat p < Mi ! nat r)) \<Longrightarrow>
    set (emult_mask binop Mi Mx Ai Ax Bi Bx (ha - la = len) la (Ai ! nat la) ha
           (hb - lb = len) lb (Bi ! nat lb) hb pM pM_end pA pB) =
      emult_intersection binop
        (mask_true_at (Some \<lparr> mv_Mi = Mi, mv_Mx = Mx, mv_pM = pM, mv_pM_end = pM_end \<rparr>))
        (vec_entries Ai Ax la ha) (vec_entries Bi Bx lb hb) \<and>
    sorted_wrt (<) (map fst (emult_mask binop Mi Mx Ai Ax Bi Bx (ha - la = len) la (Ai ! nat la) ha
           (hb - lb = len) lb (Bi ! nat lb) hb pM pM_end pA pB))"
proof (induction "nat (pM_end - pM)" arbitrary: pM pA pB)
  case 0
  then have "\<not> pM < pM_end" by simp
  then have out: "emult_mask binop Mi Mx Ai Ax Bi Bx (ha - la = len) la (Ai ! nat la) ha
           (hb - lb = len) lb (Bi ! nat lb) hb pM pM_end pA pB = []"
    by (subst emult_mask.simps) simp
  have "emult_intersection binop
        (mask_true_at (Some \<lparr> mv_Mi = Mi, mv_Mx = Mx, mv_pM = pM, mv_pM_end = pM_end \<rparr>))
        (vec_entries Ai Ax la ha) (vec_entries Bi Bx lb hb) = {}"
  proof -
    have "\<And>j c. (j, c) \<notin> emult_intersection binop
        (mask_true_at (Some \<lparr> mv_Mi = Mi, mv_Mx = Mx, mv_pM = pM, mv_pM_end = pM_end \<rparr>))
        (vec_entries Ai Ax la ha) (vec_entries Bi Bx lb hb)"
      unfolding masked_iff using \<open>\<not> pM < pM_end\<close> by auto
    then show ?thesis by auto
  qed
  then show ?case using out by simp
next
  case (Suc n)
  let ?I = "\<lambda>pM. emult_intersection binop
        (mask_true_at (Some \<lparr> mv_Mi = Mi, mv_Mx = Mx, mv_pM = pM, mv_pM_end = pM_end \<rparr>))
        (vec_entries Ai Ax la ha) (vec_entries Bi Bx lb hb)"
  let ?loop = "\<lambda>pM pA pB. emult_mask binop Mi Mx Ai Ax Bi Bx (ha - la = len) la (Ai ! nat la) ha
           (hb - lb = len) lb (Bi ! nat lb) hb pM pM_end pA pB"
  let ?i = "Mi ! nat pM"
  from Suc.hyps(2) have lt: "pM < pM_end" and n: "n = nat (pM_end - (pM + 1))" by auto
  note incM = Suc.prems(1)
  have irange: "ifirst \<le> ?i" "?i < ifirst + len" using Suc.prems(2) lt by auto
  have Mlt: "\<And>r. pM < r \<Longrightarrow> r < pM_end \<Longrightarrow> ?i < Mi ! nat r"
    using increasing_onD[OF incM, of pM] by simp
  have incM': "increasing_on Mi (pM + 1) pM_end"
    using incM by (rule increasing_on_sub) simp_all
  have rangeM': "\<forall>r. pM + 1 \<le> r \<and> r < pM_end \<longrightarrow>
                   ifirst \<le> Mi ! nat r \<and> Mi ! nat r < ifirst + len"
    using Suc.prems(2) by simp
  have rest: "set (?loop (pM + 1) pA' pB') = ?I (pM + 1) \<and>
              sorted_wrt (<) (map fst (?loop (pM + 1) pA' pB'))"
    if "ha - la \<noteq> len \<longrightarrow> la \<le> pA' \<and> pA' < ha \<and> (\<forall>p. la \<le> p \<and> p < pA' \<longrightarrow> Ai ! nat p \<le> ?i)"
      and "hb - lb \<noteq> len \<longrightarrow> lb \<le> pB' \<and> pB' < hb \<and> (\<forall>p. lb \<le> p \<and> p < pB' \<longrightarrow> Bi ! nat p \<le> ?i)"
    for pA' pB'
  proof (rule Suc.hyps(1)[OF n incM' rangeM'])
    show "ha - la \<noteq> len \<longrightarrow> la \<le> pA' \<and> pA' < ha \<and>
       (\<forall>p r. la \<le> p \<and> p < pA' \<and> pM + 1 \<le> r \<and> r < pM_end \<longrightarrow> Ai ! nat p < Mi ! nat r)"
    proof (intro impI conjI allI)
      fix p r assume d: "ha - la \<noteq> len" and pr: "la \<le> p \<and> p < pA' \<and> pM + 1 \<le> r \<and> r < pM_end"
      have "Ai ! nat p \<le> ?i" using that(1) d pr by blast
      moreover have "?i < Mi ! nat r" using Mlt[of r] pr by simp
      ultimately show "Ai ! nat p < Mi ! nat r" by simp
    qed (use that(1) in auto)
    show "hb - lb \<noteq> len \<longrightarrow> lb \<le> pB' \<and> pB' < hb \<and>
       (\<forall>p r. lb \<le> p \<and> p < pB' \<and> pM + 1 \<le> r \<and> r < pM_end \<longrightarrow> Bi ! nat p < Mi ! nat r)"
    proof (intro impI conjI allI)
      fix p r assume d: "hb - lb \<noteq> len" and pr: "lb \<le> p \<and> p < pB' \<and> pM + 1 \<le> r \<and> r < pM_end"
      have "Bi ! nat p \<le> ?i" using that(2) d pr by blast
      moreover have "?i < Mi ! nat r" using Mlt[of r] pr by simp
      ultimately show "Bi ! nat p < Mi ! nat r" by simp
    qed (use that(2) in auto)
  qed
  have oldA: "ha - la \<noteq> len \<longrightarrow> la \<le> pA \<and> pA < ha \<and> (\<forall>p. la \<le> p \<and> p < pA \<longrightarrow> Ai ! nat p < ?i)"
    using Suc.prems(3) lt by auto
  have oldB: "hb - lb \<noteq> len \<longrightarrow> lb \<le> pB \<and> pB < hb \<and> (\<forall>p. lb \<le> p \<and> p < pB \<longrightarrow> Bi ! nat p < ?i)"
    using Suc.prems(4) lt by auto
  have oldA': "ha - la \<noteq> len \<longrightarrow> la \<le> pA \<and> pA < ha \<and> (\<forall>p. la \<le> p \<and> p < pA \<longrightarrow> Ai ! nat p \<le> ?i)"
    using oldA by force
  have oldB': "hb - lb \<noteq> len \<longrightarrow> lb \<le> pB \<and> pB < hb \<and> (\<forall>p. lb \<le> p \<and> p < pB \<longrightarrow> Bi ! nat p \<le> ?i)"
    using oldB by force
  have split: "(j, c) \<in> ?I pM \<longleftrightarrow>
      (GB_mcast Mx pM \<and> j = ?i \<and>
         (\<exists>p q. la \<le> p \<and> p < ha \<and> lb \<le> q \<and> q < hb \<and> Ai ! nat p = ?i \<and> Bi ! nat q = ?i \<and>
                c = binop (Ax ! nat p) (Bx ! nat q))) \<or> (j, c) \<in> ?I (pM + 1)" for j c
    unfolding masked_iff
  proof (intro iffI; elim exE conjE disjE)
    fix p q r
    assume h: "la \<le> p" "p < ha" "lb \<le> q" "q < hb" "pM \<le> r" "r < pM_end" "Ai ! nat p = j"
      "Bi ! nat q = j" "Mi ! nat r = j" "GB_mcast Mx r" "c = binop (Ax ! nat p) (Bx ! nat q)"
    show "(GB_mcast Mx pM \<and> j = ?i \<and>
         (\<exists>p q. la \<le> p \<and> p < ha \<and> lb \<le> q \<and> q < hb \<and> Ai ! nat p = ?i \<and> Bi ! nat q = ?i \<and>
                c = binop (Ax ! nat p) (Bx ! nat q))) \<or>
       (\<exists>p q r. la \<le> p \<and> p < ha \<and> lb \<le> q \<and> q < hb \<and> pM + 1 \<le> r \<and> r < pM_end \<and>
        Ai ! nat p = j \<and> Bi ! nat q = j \<and> Mi ! nat r = j \<and> GB_mcast Mx r \<and>
        c = binop (Ax ! nat p) (Bx ! nat q))"
    proof (cases "r = pM")
      case True
      have "\<exists>p q. la \<le> p \<and> p < ha \<and> lb \<le> q \<and> q < hb \<and> Ai ! nat p = ?i \<and> Bi ! nat q = ?i \<and>
                c = binop (Ax ! nat p) (Bx ! nat q)"
        using h True by (intro exI[where x = p] exI[where x = q]) simp
      then show ?thesis using h True by simp
    next
      case False
      have "\<exists>p q r. la \<le> p \<and> p < ha \<and> lb \<le> q \<and> q < hb \<and> pM + 1 \<le> r \<and> r < pM_end \<and>
        Ai ! nat p = j \<and> Bi ! nat q = j \<and> Mi ! nat r = j \<and> GB_mcast Mx r \<and>
        c = binop (Ax ! nat p) (Bx ! nat q)"
        using h False by (intro exI[where x = p] exI[where x = q] exI[where x = r]) simp
      then show ?thesis by simp
    qed
  next
    fix p q
    assume h: "GB_mcast Mx pM" "j = ?i" "la \<le> p" "p < ha" "lb \<le> q" "q < hb" "Ai ! nat p = ?i"
      "Bi ! nat q = ?i" "c = binop (Ax ! nat p) (Bx ! nat q)"
    show "\<exists>p q r. la \<le> p \<and> p < ha \<and> lb \<le> q \<and> q < hb \<and> pM \<le> r \<and> r < pM_end \<and>
        Ai ! nat p = j \<and> Bi ! nat q = j \<and> Mi ! nat r = j \<and> GB_mcast Mx r \<and>
        c = binop (Ax ! nat p) (Bx ! nat q)"
      using h lt by (intro exI[where x = p] exI[where x = q] exI[where x = pM]) simp
  next
    fix p q r
    assume h: "la \<le> p" "p < ha" "lb \<le> q" "q < hb" "pM + 1 \<le> r" "r < pM_end" "Ai ! nat p = j"
      "Bi ! nat q = j" "Mi ! nat r = j" "GB_mcast Mx r" "c = binop (Ax ! nat p) (Bx ! nat q)"
    show "\<exists>p q r. la \<le> p \<and> p < ha \<and> lb \<le> q \<and> q < hb \<and> pM \<le> r \<and> r < pM_end \<and>
        Ai ! nat p = j \<and> Bi ! nat q = j \<and> Mi ! nat r = j \<and> GB_mcast Mx r \<and>
        c = binop (Ax ! nat p) (Bx ! nat q)"
      using h by (intro exI[where x = p] exI[where x = q] exI[where x = r]) simp
  qed
  have later: "?i < j" if "(j, c) \<in> ?I (pM + 1)" for j c
  proof -
    from that obtain r where "pM + 1 \<le> r" "r < pM_end" "Mi ! nat r = j"
      unfolding masked_iff by blast
    then show ?thesis using Mlt[of r] by simp
  qed
  obtain pA' afound where lookA:
    "(if ha - la = len then (la + ?i - Ai ! nat la, True)
      else GB_BINARY_SEARCH ?i Ai pA (ha - 1)) = (pA', afound)"
    by fastforce
  obtain pB' bfound where lookB:
    "(if hb - lb = len then (lb + ?i - Bi ! nat lb, True)
      else GB_BINARY_SEARCH ?i Bi pB (hb - 1)) = (pB', bfound)"
    by fastforce
  note LA = mask_lookup[OF A neA refl irange lookA oldA]
  note LB = mask_lookup[OF B neB refl irange lookB oldB]
  have newA: "ha - la \<noteq> len \<longrightarrow> la \<le> pA' \<and> pA' < ha \<and> (\<forall>p. la \<le> p \<and> p < pA' \<longrightarrow> Ai ! nat p \<le> ?i)"
    using LA(3) by force
  have newB: "hb - lb \<noteq> len \<longrightarrow> lb \<le> pB' \<and> pB' < hb \<and> (\<forall>p. lb \<le> p \<and> p < pB' \<longrightarrow> Bi ! nat p \<le> ?i)"
    using LB(3) by force
  have unfold: "?loop pM pA pB =
      (if \<not> GB_mcast Mx pM then ?loop (pM + 1) pA pB
       else if \<not> afound then ?loop (pM + 1) pA' pB
       else if \<not> bfound then ?loop (pM + 1) pA' pB'
       else (?i, binop (Ax ! nat pA') (Bx ! nat pB')) # ?loop (pM + 1) pA' pB')"
    by (subst emult_mask.simps) (simp add: lt Let_def lookA lookB)
  consider (nomask) "\<not> GB_mcast Mx pM"
    | (noA) "GB_mcast Mx pM" "\<not> afound"
    | (noB) "GB_mcast Mx pM" "afound" "\<not> bfound"
    | (both) "GB_mcast Mx pM" "afound" "bfound"
    by blast
  then show ?case
  proof cases
    case nomask
    then have out: "?loop pM pA pB = ?loop (pM + 1) pA pB" using unfold by simp
    have "?I pM = ?I (pM + 1)" using split nomask by auto
    then show ?thesis using rest[OF oldA' oldB'] out by simp
  next
    case noA
    then have out: "?loop pM pA pB = ?loop (pM + 1) pA' pB" using unfold by simp
    have "\<not> (\<exists>p. la \<le> p \<and> p < ha \<and> Ai ! nat p = ?i)" using LA(1) noA by simp
    then have "?I pM = ?I (pM + 1)" using split by auto
    then show ?thesis using rest[OF newA oldB'] out by simp
  next
    case noB
    then have out: "?loop pM pA pB = ?loop (pM + 1) pA' pB'" using unfold by simp
    have "\<not> (\<exists>q. lb \<le> q \<and> q < hb \<and> Bi ! nat q = ?i)" using LB(1) noB by simp
    then have "?I pM = ?I (pM + 1)" using split by auto
    then show ?thesis using rest[OF newA newB] out by simp
  next
    case both
    then have out: "?loop pM pA pB =
        (?i, binop (Ax ! nat pA') (Bx ! nat pB')) # ?loop (pM + 1) pA' pB'"
      using unfold by simp
    from LA(2) both have pA': "la \<le> pA'" "pA' < ha" "Ai ! nat pA' = ?i" by auto
    from LB(2) both have pB': "lb \<le> pB'" "pB' < hb" "Bi ! nat pB' = ?i" by auto
    have uA: "p = pA'" if "la \<le> p" "p < ha" "Ai ! nat p = ?i" for p
      using increasing_on_inj[OF vector_okD(1)[OF A], of p pA'] that pA' by simp
    have uB: "q = pB'" if "lb \<le> q" "q < hb" "Bi ! nat q = ?i" for q
      using increasing_on_inj[OF vector_okD(1)[OF B], of q pB'] that pB' by simp
    have here: "(\<exists>p q. la \<le> p \<and> p < ha \<and> lb \<le> q \<and> q < hb \<and> Ai ! nat p = ?i \<and> Bi ! nat q = ?i \<and>
                c = binop (Ax ! nat p) (Bx ! nat q)) \<longleftrightarrow> c = binop (Ax ! nat pA') (Bx ! nat pB')"
      for c
    proof
      assume "\<exists>p q. la \<le> p \<and> p < ha \<and> lb \<le> q \<and> q < hb \<and> Ai ! nat p = ?i \<and> Bi ! nat q = ?i \<and>
                c = binop (Ax ! nat p) (Bx ! nat q)"
      then obtain p q where pq: "la \<le> p" "p < ha" "lb \<le> q" "q < hb" "Ai ! nat p = ?i"
        "Bi ! nat q = ?i" "c = binop (Ax ! nat p) (Bx ! nat q)" by blast
      then show "c = binop (Ax ! nat pA') (Bx ! nat pB')" using uA[of p] uB[of q] by simp
    next
      assume "c = binop (Ax ! nat pA') (Bx ! nat pB')"
      then show "\<exists>p q. la \<le> p \<and> p < ha \<and> lb \<le> q \<and> q < hb \<and> Ai ! nat p = ?i \<and> Bi ! nat q = ?i \<and>
                c = binop (Ax ! nat p) (Bx ! nat q)"
        using pA' pB' by (intro exI[where x = pA'] exI[where x = pB']) simp
    qed
    have mem: "(j, c) \<in> ?I pM \<longleftrightarrow>
        (j, c) = (?i, binop (Ax ! nat pA') (Bx ! nat pB')) \<or> (j, c) \<in> ?I (pM + 1)" for j c
      unfolding split[of j c] here using both(1) by simp
    have seteq: "?I pM = insert (?i, binop (Ax ! nat pA') (Bx ! nat pB')) (?I (pM + 1))"
    proof (rule set_eqI)
      fix x
      show "x \<in> ?I pM \<longleftrightarrow> x \<in> insert (?i, binop (Ax ! nat pA') (Bx ! nat pB')) (?I (pM + 1))"
        using mem[of "fst x" "snd x"] by simp
    qed
    note R = rest[OF newA newB]
    have gt: "\<forall>x \<in> set (?loop (pM + 1) pA' pB'). ?i < fst x"
    proof
      fix x assume "x \<in> set (?loop (pM + 1) pA' pB')"
      then have "x \<in> ?I (pM + 1)" using R by simp
      then show "?i < fst x" using later[of "fst x" "snd x"] by simp
    qed
    show ?thesis unfolding out using R seteq gt by simp
  qed
qed

lemma mask_true_at_None: "mask_true_at None = (\<lambda>i. True)"
  by (simp add: mask_true_at_def fun_eq_iff)

lemma cases_intersection:
  assumes A: "vector_ok Ai na pA pA_end ifirst len" and B: "vector_ok Bi nb pB pB_end ifirst len"
    and M: "mask_ok M ifirst len" and neA: "pA < pA_end" and neB: "pB < pB_end"
  shows "set (emult_cases binop M Ai Ax Bi Bx pA pA_end pB pB_end len) =
           emult_intersection binop (mask_true_at M)
             (vec_entries Ai Ax pA pA_end) (vec_entries Bi Bx pB pB_end) \<and>
         sorted_wrt (<) (map fst (emult_cases binop M Ai Ax Bi Bx pA pA_end pB pB_end len))"
proof -
  note incA = vector_okD(1)[OF A] and incB = vector_okD(1)[OF B]
  have pos: "0 < len" using vector_okD(2)[OF A, of pA] neA by simp
  show ?thesis
  proof (cases M)
    case None
    consider (dd) "pA_end - pA = len" "pB_end - pB = len"
      | (ds) "pA_end - pA = len" "pB_end - pB \<noteq> len"
      | (sd) "pA_end - pA \<noteq> len" "pB_end - pB = len"
      | (sA) "pA_end - pA \<noteq> len" "pB_end - pB \<noteq> len" "pA_end - pA > 32 * (pB_end - pB)"
      | (sB) "pA_end - pA \<noteq> len" "pB_end - pB \<noteq> len" "\<not> pA_end - pA > 32 * (pB_end - pB)"
          "pB_end - pB > 32 * (pA_end - pA)"
      | (mg) "pA_end - pA \<noteq> len" "pB_end - pB \<noteq> len" "\<not> pA_end - pA > 32 * (pB_end - pB)"
          "\<not> pB_end - pB > 32 * (pA_end - pA)"
      by blast
    then show ?thesis
    proof cases
      case dd
      have "emult_cases binop M Ai Ax Bi Bx pA pA_end pB pB_end len =
            emult_dense_dense binop Ax Bx pA pB (pA_end - pA) (Ai ! nat pA)"
        using dd neA neB None by (simp add: emult_cases_def Let_def)
      then show ?thesis
        using dense_dense_intersection[OF A B dd pos, of binop Ax Bx] None
        by (simp add: mask_true_at_None)
    next
      case ds
      have "emult_cases binop M Ai Ax Bi Bx pA pA_end pB pB_end len =
            emult_dense_sparse binop Ax Bi Bx pA pB (pB_end - pB) (Ai ! nat pA)"
        using ds neA neB None by (simp add: emult_cases_def Let_def)
      then show ?thesis
        using dense_sparse_intersection[OF A B ds(1) pos, of binop Ax Bx] None
        by (simp add: mask_true_at_None)
    next
      case sd
      have "emult_cases binop M Ai Ax Bi Bx pA pA_end pB pB_end len =
            emult_sparse_dense binop Ai Ax Bx pA pB (pA_end - pA) (Bi ! nat pB)"
        using sd neA neB None by (simp add: emult_cases_def Let_def)
      then show ?thesis
        using sparse_dense_intersection[OF A B sd(2) pos, of binop Ax Bx] None
        by (simp add: mask_true_at_None)
    next
      case sA
      have "emult_cases binop M Ai Ax Bi Bx pA pA_end pB pB_end len =
            emult_search_A binop Ai Ax Bi Bx pA pA_end pB pB_end"
        using sA neA neB None by (simp add: emult_cases_def Let_def)
      then show ?thesis
        using search_A_intersection[OF incA incB neA, of binop Ax Bx] None
        by (simp add: mask_true_at_None)
    next
      case sB
      have "emult_cases binop M Ai Ax Bi Bx pA pA_end pB pB_end len =
            emult_search_B binop Ai Ax Bi Bx pA pA_end pB pB_end"
        using sB neA neB None by (simp add: emult_cases_def Let_def)
      then show ?thesis
        using search_B_intersection[OF incA incB neB, of binop Ax Bx] None
        by (simp add: mask_true_at_None)
    next
      case mg
      have "emult_cases binop M Ai Ax Bi Bx pA pA_end pB pB_end len =
            emult_merge binop Ai Ax Bi Bx pA pA_end pB pB_end"
        using mg neA neB None by (simp add: emult_cases_def Let_def)
      then show ?thesis
        using merge_intersection[OF incA incB, of binop Ax Bx] None
        by (simp add: mask_true_at_None)
    qed
  next
    case (Some Mv)
    obtain Mi Mx pM pM_end
      where Mv: "Mv = \<lparr> mv_Mi = Mi, mv_Mx = Mx, mv_pM = pM, mv_pM_end = pM_end \<rparr>"
      by (cases Mv) simp
    from M Some Mv obtain nm where okM: "vector_ok Mi nm pM pM_end ifirst len"
      by (simp add: mask_ok_def)
    have out: "emult_cases binop M Ai Ax Bi Bx pA pA_end pB pB_end len =
        emult_mask binop Mi Mx Ai Ax Bi Bx (pA_end - pA = len) pA (Ai ! nat pA) pA_end
          (pB_end - pB = len) pB (Bi ! nat pB) pB_end pM pM_end pA pB"
      using neA neB Some Mv by (simp add: emult_cases_def Let_def)
    have rangeM: "\<forall>r. pM \<le> r \<and> r < pM_end \<longrightarrow>
                    ifirst \<le> Mi ! nat r \<and> Mi ! nat r < ifirst + len"
      using vector_okD(2)[OF okM] by blast
    have invA: "pA_end - pA \<noteq> len \<longrightarrow> pA \<le> pA \<and> pA < pA_end \<and>
       (\<forall>p r. pA \<le> p \<and> p < pA \<and> pM \<le> r \<and> r < pM_end \<longrightarrow> Ai ! nat p < Mi ! nat r)"
      using neA by simp
    have invB: "pB_end - pB \<noteq> len \<longrightarrow> pB \<le> pB \<and> pB < pB_end \<and>
       (\<forall>p r. pB \<le> p \<and> p < pB \<and> pM \<le> r \<and> r < pM_end \<longrightarrow> Bi ! nat p < Mi ! nat r)"
      using neB by simp
    show ?thesis
      using mask_intersection[OF A B neA neB vector_okD(1)[OF okM] rangeM invA invB,
          of binop Mx Ax Bx] out Some Mv
      by simp
  qed
qed

lemma prefilter_empty:
  assumes A: "vector_ok Ai na pA pA_end ifirst len" and B: "vector_ok Bi nb pB pB_end ifirst len"
    and pre: "pA_end - pA = 0 \<or> pB_end - pB = 0 \<or>
              Ai ! nat (pA_end - 1) < Bi ! nat pB \<or> Bi ! nat (pB_end - 1) < Ai ! nat pA"
  shows "emult_intersection binop m (vec_entries Ai Ax pA pA_end) (vec_entries Bi Bx pB pB_end) = {}"
proof -
  have "(j, c) \<notin> emult_intersection binop m (vec_entries Ai Ax pA pA_end)
                   (vec_entries Bi Bx pB pB_end)" for j c
  proof
    assume "(j, c) \<in> emult_intersection binop m (vec_entries Ai Ax pA pA_end)
                       (vec_entries Bi Bx pB pB_end)"
    then obtain p q where pq: "pA \<le> p" "p < pA_end" "pB \<le> q" "q < pB_end"
      "Ai ! nat p = j" "Bi ! nat q = j"
      unfolding intersection_iff by blast
    have "Ai ! nat pA \<le> j" using increasing_on_le[OF vector_okD(1)[OF A], of pA p] pq by simp
    moreover have "j \<le> Ai ! nat (pA_end - 1)"
      using increasing_on_le[OF vector_okD(1)[OF A], of p "pA_end - 1"] pq by simp
    moreover have "Bi ! nat pB \<le> j"
      using increasing_on_le[OF vector_okD(1)[OF B], of pB q] pq by simp
    moreover have "j \<le> Bi ! nat (pB_end - 1)"
      using increasing_on_le[OF vector_okD(1)[OF B], of q "pB_end - 1"] pq by simp
    ultimately show False using pre pq by auto
  qed
  then show ?thesis by auto
qed

lemma phase1_zero:
  assumes "pA < pA_end" and "pB < pB_end"
    and "emult_phase1 binop M Ai Ax Bi Bx pA pA_end pB pB_end len = 0"
    and "\<not> (Ai ! nat (pA_end - 1) < Bi ! nat pB \<or> Bi ! nat (pB_end - 1) < Ai ! nat pA)"
  shows "emult_cases binop M Ai Ax Bi Bx pA pA_end pB pB_end len = []"
proof (cases M)
  case None
  consider (dense) "pA_end - pA = len \<or> pB_end - pB = len"
    | (sparse) "pA_end - pA \<noteq> len" "pB_end - pB \<noteq> len" by blast
  then show ?thesis
  proof cases
    case dense
    then have "emult_phase1 binop M Ai Ax Bi Bx pA pA_end pB pB_end len \<noteq> 0"
      using assms(1,2,4) None by (auto simp: emult_phase1_def Let_def)
    then show ?thesis using assms(3) by simp
  next
    case sparse
    then have "emult_phase1 binop M Ai Ax Bi Bx pA pA_end pB pB_end len =
        int (length (emult_cases binop M Ai Ax Bi Bx pA pA_end pB pB_end len))"
      using assms(1,2,4) None by (simp add: emult_phase1_def Let_def)
    then show ?thesis using assms(3) by simp
  qed
next
  case (Some Mv)
  then have "emult_phase1 binop M Ai Ax Bi Bx pA pA_end pB pB_end len =
      int (length (emult_cases binop M Ai Ax Bi Bx pA pA_end pB pB_end len))"
    using assms(1,2,4) by (simp add: emult_phase1_def Let_def)
  then show ?thesis using assms(3) by simp
qed

lemma phase1_prefilter:
  assumes "pA_end - pA = 0 \<or> pB_end - pB = 0 \<or>
           (pA < pA_end \<and> pB < pB_end \<and>
            (Ai ! nat (pA_end - 1) < Bi ! nat pB \<or> Bi ! nat (pB_end - 1) < Ai ! nat pA))"
  shows "emult_phase1 binop M Ai Ax Bi Bx pA pA_end pB pB_end len = 0"
  using assms by (auto simp: emult_phase1_def Let_def)

lemma interval4: "{0 ..< 4 :: int} = {0, 1, 2, 3}"
  by auto

lemma interval_slices: "{1 ..< 4 :: int} = {1, 2, 3}" "{1 ..< 2 :: int} = {1}"
  by auto

lemma dense_counts:
  "length (emult_dense_dense binop Ax Bx pA pB n iA_first) = nat n"
  "length (emult_dense_sparse binop Ax Bi Bx pA pB n iA_first) = nat n"
  "length (emult_sparse_dense binop Ai Ax Bx pA pB n iB_first) = nat n"
  by (simp_all add: emult_dense_dense_def emult_dense_sparse_def emult_sparse_dense_def)

lemma phase1_is_length:
  assumes "pA < pA_end" and "pB < pB_end"
    and "\<not> (Ai ! nat (pA_end - 1) < Bi ! nat pB \<or> Bi ! nat (pB_end - 1) < Ai ! nat pA)"
  shows "emult_phase1 binop M Ai Ax Bi Bx pA pA_end pB pB_end len =
           int (length (emult_cases binop M Ai Ax Bi Bx pA pA_end pB pB_end len))"
proof (cases M)
  case None
  consider (dd) "pA_end - pA = len" "pB_end - pB = len"
    | (ds) "pA_end - pA = len" "pB_end - pB \<noteq> len"
    | (sd) "pA_end - pA \<noteq> len" "pB_end - pB = len"
    | (sparse) "pA_end - pA \<noteq> len" "pB_end - pB \<noteq> len"
    by blast
  then show ?thesis
  proof cases
    case dd
    then show ?thesis
      using assms None by (simp add: emult_phase1_def emult_cases_def Let_def dense_counts)
  next
    case ds
    then show ?thesis
      using assms None by (simp add: emult_phase1_def emult_cases_def Let_def dense_counts)
  next
    case sd
    then show ?thesis
      using assms None by (simp add: emult_phase1_def emult_cases_def Let_def dense_counts)
  next
    case sparse
    then show ?thesis
      using assms None by (simp add: emult_phase1_def Let_def)
  qed
next
  case (Some Mv)
  then show ?thesis
    using assms by (simp add: emult_phase1_def Let_def)
qed

text \<open>
  Claim C1. Element-wise multiply has set-intersection semantics. For one task on the
  vector j of two sparse matrices and an optional mask applied in the kernel, with the
  vectors (or the slices of a fine task) not jumbled, the entries that phase 2 of the
  template writes for C(:,j) are exactly the pairs \<open>(i, binop a b)\<close> with A(i,j) = a and
  B(i,j) = b both present and, when there is a mask, M(i,j) present and true. A position
  that is absent from A or from B gives no entry of C. The entries come out with strictly
  increasing row indices, so no position appears twice. The count of phase 1, which sets
  the size of C(:,j) in \<open>Cp\<close>, is the number of entries that phase 2 writes, so C(:,j) holds
  these entries and nothing else. This holds for every case of the template: the two
  tests of phase 1, the three dense cases, the two binary-search cases, the merge, and the
  loop over the mask.
\<close>

theorem emult_set_intersection:
  assumes A: "vector_ok Ai (length Ax) pA pA_end ifirst len"
    and B: "vector_ok Bi (length Bx) pB pB_end ifirst len"
    and M: "mask_ok M ifirst len"
  shows "set (GB_emult_vector binop M Ai Ax Bi Bx pA pA_end pB pB_end len) =
           emult_intersection binop (mask_true_at M)
             (vec_entries Ai Ax pA pA_end) (vec_entries Bi Bx pB pB_end) \<and>
         sorted_wrt (<) (map fst (GB_emult_vector binop M Ai Ax Bi Bx pA pA_end pB pB_end len)) \<and>
         emult_phase1 binop M Ai Ax Bi Bx pA pA_end pB pB_end len =
           int (length (GB_emult_vector binop M Ai Ax Bi Bx pA pA_end pB pB_end len))"
proof -
  have leA: "pA \<le> pA_end" and leB: "pB \<le> pB_end"
    using A B by (auto simp: vector_ok_def)
  let ?pre = "pA_end - pA = 0 \<or> pB_end - pB = 0 \<or>
              Ai ! nat (pA_end - 1) < Bi ! nat pB \<or> Bi ! nat (pB_end - 1) < Ai ! nat pA"
  show ?thesis
  proof (cases ?pre)
    case True
    then have zero: "emult_phase1 binop M Ai Ax Bi Bx pA pA_end pB pB_end len = 0"
      using leA leB by (intro phase1_prefilter) auto
    then have "GB_emult_vector binop M Ai Ax Bi Bx pA pA_end pB pB_end len = []"
      by (simp add: GB_emult_vector_def emult_phase2_def)
    then show ?thesis
      using prefilter_empty[OF A B True, of binop "mask_true_at M" Ax Bx] zero by simp
  next
    case False
    then have neA: "pA < pA_end" and neB: "pB < pB_end"
      and meet: "\<not> (Ai ! nat (pA_end - 1) < Bi ! nat pB \<or> Bi ! nat (pB_end - 1) < Ai ! nat pA)"
      using leA leB by auto
    have out: "GB_emult_vector binop M Ai Ax Bi Bx pA pA_end pB pB_end len =
          emult_cases binop M Ai Ax Bi Bx pA pA_end pB pB_end len"
      using phase1_zero[OF neA neB _ meet, of binop M Ax Bx len]
      by (auto simp: GB_emult_vector_def emult_phase2_def)
    show ?thesis
      unfolding out
      using cases_intersection[OF A B M neA neB, of binop Ax Bx]
        phase1_is_length[OF neA neB meet, of binop M Ax Bx len]
      by simp
  qed
qed

text \<open>
  A coarse task on vectors of length 7 with a valued mask: A(:,j) has the rows 0, 2, 3, 5,
  B(:,j) the rows 1, 2, 5, 6, the mask is true at 0, 4, 5 and false at 2. The only entry of
  C(:,j) is at row 5. And a fine task without mask on the rows 4 to 6: the slice of A(:,j)
  at the positions 1 to 3 holds the rows 4, 5, 6 and is dense for the task, the slice of
  B(:,j) at the position 1 holds the row 5; the only entry is at row 5.
\<close>

theorem emult_set_intersection_witness:
  "vector_ok [0, 2, 3, 5] (length [1, 2, 3, 4 :: int]) 0 4 0 7 \<and>
   vector_ok [1, 2, 5, 6] (length [10, 20, 30, 40 :: int]) 0 4 0 7 \<and>
   mask_ok (Some \<lparr> mv_Mi = [0, 2, 4, 5], mv_Mx = Some [True, False, True, True],
                   mv_pM = 0, mv_pM_end = 4 \<rparr>) 0 7 \<and>
   GB_emult_vector (*) (Some \<lparr> mv_Mi = [0, 2, 4, 5], mv_Mx = Some [True, False, True, True],
                   mv_pM = 0, mv_pM_end = 4 \<rparr>)
     [0, 2, 3, 5] [1, 2, 3, 4 :: int] [1, 2, 5, 6] [10, 20, 30, 40 :: int] 0 4 0 4 7 =
     [(5, 120)] \<and>
   emult_phase1 (*) (Some \<lparr> mv_Mi = [0, 2, 4, 5], mv_Mx = Some [True, False, True, True],
                   mv_pM = 0, mv_pM_end = 4 \<rparr>)
     [0, 2, 3, 5] [1, 2, 3, 4 :: int] [1, 2, 5, 6] [10, 20, 30, 40 :: int] 0 4 0 4 7 = 1 \<and>
   emult_intersection (*)
     (mask_true_at (Some \<lparr> mv_Mi = [0, 2, 4, 5], mv_Mx = Some [True, False, True, True],
                   mv_pM = 0, mv_pM_end = 4 \<rparr>))
     (vec_entries [0, 2, 3, 5] [1, 2, 3, 4 :: int] 0 4)
     (vec_entries [1, 2, 5, 6] [10, 20, 30, 40 :: int] 0 4) =
     {(5, 120)} \<and>
   vector_ok [1, 4, 5, 6, 9] (length [1, 2, 3, 4, 5 :: int]) 1 4 4 3 \<and>
   vector_ok [0, 5, 8] (length [10, 20, 30 :: int]) 1 2 4 3 \<and>
   GB_emult_vector (*) None [1, 4, 5, 6, 9] [1, 2, 3, 4, 5 :: int] [0, 5, 8] [10, 20, 30 :: int]
     1 4 1 2 3 = [(5, 60)] \<and>
   emult_phase1 (*) None [1, 4, 5, 6, 9] [1, 2, 3, 4, 5 :: int] [0, 5, 8] [10, 20, 30 :: int]
     1 4 1 2 3 = 1 \<and>
   emult_intersection (*) (mask_true_at None)
     (vec_entries [1, 4, 5, 6, 9] [1, 2, 3, 4, 5 :: int] 1 4)
     (vec_entries [0, 5, 8] [10, 20, 30 :: int] 1 2) = {(5, 60)}"
proof -
  let ?M = "Some \<lparr> mv_Mi = [0, 2, 4, 5], mv_Mx = Some [True, False, True, True],
                   mv_pM = 0, mv_pM_end = 4 \<rparr>"
  have A: "vector_ok [0, 2, 3, 5] (length [1, 2, 3, 4 :: int]) 0 4 0 7"
    by (simp add: vector_ok_def increasing_on_def interval4)
  have B: "vector_ok [1, 2, 5, 6] (length [10, 20, 30, 40 :: int]) 0 4 0 7"
    by (simp add: vector_ok_def increasing_on_def interval4)
  have M: "mask_ok ?M 0 7"
    by (simp add: mask_ok_def vector_ok_def increasing_on_def interval4)
  have out: "GB_emult_vector (*) ?M [0, 2, 3, 5] [1, 2, 3, 4] [1, 2, 5, 6] [10, 20, 30, 40 :: int]
               0 4 0 4 7 = [(5, 120)]"
    by (simp add: GB_emult_vector_def emult_phase1_def emult_phase2_def emult_cases_def Let_def
        emult_mask.simps GB_BINARY_SEARCH_def GB_BINARY_TRIM_SEARCH.simps GB_mcast_def)
  have A': "vector_ok [1, 4, 5, 6, 9] (length [1, 2, 3, 4, 5 :: int]) 1 4 4 3"
    by (simp add: vector_ok_def increasing_on_def interval_slices)
  have B': "vector_ok [0, 5, 8] (length [10, 20, 30 :: int]) 1 2 4 3"
    by (simp add: vector_ok_def increasing_on_def interval_slices)
  have M': "mask_ok None 4 3"
    by (simp add: mask_ok_def)
  have out': "GB_emult_vector (*) None [1, 4, 5, 6, 9] [1, 2, 3, 4, 5 :: int] [0, 5, 8]
                [10, 20, 30 :: int] 1 4 1 2 3 = [(5, 60)]"
    by (simp add: GB_emult_vector_def emult_phase1_def emult_phase2_def emult_cases_def Let_def
        emult_dense_sparse_def)
  have coarse: "emult_phase1 (*) ?M [0, 2, 3, 5] [1, 2, 3, 4 :: int] [1, 2, 5, 6]
                  [10, 20, 30, 40 :: int] 0 4 0 4 7 = 1 \<and>
      emult_intersection (*) (mask_true_at ?M)
        (vec_entries [0, 2, 3, 5] [1, 2, 3, 4 :: int] 0 4)
        (vec_entries [1, 2, 5, 6] [10, 20, 30, 40 :: int] 0 4) = {(5, 120)}"
    using emult_set_intersection[OF A B M, of "(*)"] out by simp
  have fine: "emult_phase1 (*) None [1, 4, 5, 6, 9] [1, 2, 3, 4, 5 :: int] [0, 5, 8]
                [10, 20, 30 :: int] 1 4 1 2 3 = 1 \<and>
      emult_intersection (*) (mask_true_at None)
        (vec_entries [1, 4, 5, 6, 9] [1, 2, 3, 4, 5 :: int] 1 4)
        (vec_entries [0, 5, 8] [10, 20, 30 :: int] 1 2) = {(5, 60)}"
    using emult_set_intersection[OF A' B' M', of "(*)"] out' by simp
  show ?thesis
    using A B M out coarse A' B' out' fine by blast
qed

end
